theory Spec2Isabelle
  imports Main
begin

section \<open>Connect-Four engine: constants, scores and the grid\<close>

text \<open>
  The module constants of \<^verbatim>\<open>game_engine.py\<close>.
\<close>

abbreviation ROW_COUNT :: nat where "ROW_COUNT \<equiv> 6"
abbreviation COLUMN_COUNT :: nat where "COLUMN_COUNT \<equiv> 7"
abbreviation EMPTY :: int where "EMPTY \<equiv> 0"
abbreviation PLAYER_PIECE :: int where "PLAYER_PIECE \<equiv> 1"
abbreviation AI_PIECE :: int where "AI_PIECE \<equiv> 2"
abbreviation WINDOW_LENGTH :: nat where "WINDOW_LENGTH \<equiv> 4"

text \<open>
  The search mixes Python integers (heuristic sums and the two win sentinels) with the
  floats \<^verbatim>\<open>-np.inf\<close> and \<^verbatim>\<open>np.inf\<close>, which Python compares exactly with
  integers. A score is therefore an unbounded integer or one of the two infinities,
  linearly ordered with \<open>NegInf\<close> below and \<open>PosInf\<close> above every integer.
\<close>

datatype score = NegInf | Fin int | PosInf

instantiation score :: linorder
begin

fun less_eq_score :: "score \<Rightarrow> score \<Rightarrow> bool" where
  "less_eq_score NegInf y = True"
| "less_eq_score (Fin x) NegInf = False"
| "less_eq_score (Fin x) (Fin y) = (x \<le> y)"
| "less_eq_score (Fin x) PosInf = True"
| "less_eq_score PosInf NegInf = False"
| "less_eq_score PosInf (Fin y) = False"
| "less_eq_score PosInf PosInf = True"

definition less_score :: "score \<Rightarrow> score \<Rightarrow> bool" where
  "less_score x y = (x \<le> y \<and> \<not> y \<le> x)"

instance
proof
  fix x y z :: score
  show "(x < y) = (x \<le> y \<and> \<not> y \<le> x)"
    by (simp add: less_score_def)
  show "x \<le> x"
    by (cases x) simp_all
  show "x \<le> y \<Longrightarrow> y \<le> z \<Longrightarrow> x \<le> z"
    by (cases x; cases y; cases z) simp_all
  show "x \<le> y \<Longrightarrow> y \<le> x \<Longrightarrow> x = y"
    by (cases x; cases y) simp_all
  show "x \<le> y \<or> y \<le> x"
    by (cases x; cases y) auto
qed

end

text \<open>
  The exceptions the modelled code can raise: numpy's \<^verbatim>\<open>IndexError\<close> for an index
  outside an axis (also \<^verbatim>\<open>random.choice\<close> on an empty sequence), numpy's
  \<^verbatim>\<open>OverflowError\<close> for a Python integer that does not fit the 64-bit cells of the
  array, and \<open>NoOpenRow\<close> for a store through the \<^verbatim>\<open>None\<close> that
  \<^verbatim>\<open>get_next_open_row\<close> returns on a full column.
\<close>

datatype error = IndexError | OverflowError | NoOpenRow

text \<open>
  \<^verbatim>\<open>self.board\<close> is a numpy array of fixed shape \<open>(ROW_COUNT, COLUMN_COUNT)\<close>:
  a function from a row and a column index to the cell. Only the cells with
  \<open>r < ROW_COUNT\<close> and \<open>c < COLUMN_COUNT\<close> exist in the program; no definition below
  reads or writes another one when its index arguments are in range, as they are whenever
  they come from a \<^verbatim>\<open>range(...)\<close> of the engine. What numpy does with an arbitrary
  Python integer index is \<open>np_index\<close>: a negative index counts from the end of the
  axis, anything outside raises.
\<close>

type_synonym board = "nat \<Rightarrow> nat \<Rightarrow> int"

definition np_index :: "nat \<Rightarrow> int \<Rightarrow> error + nat" where
  "np_index n i =
     (if 0 \<le> i \<and> i < int n then Inr (nat i)
      else if - int n \<le> i \<and> i < 0 then Inr (nat (i + int n))
      else Inl IndexError)"

definition int64 :: "int \<Rightarrow> bool" where
  "int64 v \<longleftrightarrow> - (2 ^ 63) \<le> v \<and> v < 2 ^ 63"

definition set_cell :: "board \<Rightarrow> nat \<Rightarrow> nat \<Rightarrow> int \<Rightarrow> board" where
  "set_cell b r c v = b(r := (b r)(c := v))"

definition create_board :: board where
  "create_board = (\<lambda>r c. 0)"

section \<open>Connect4Logic\<close>

definition drop_piece :: "board \<Rightarrow> nat \<Rightarrow> nat \<Rightarrow> int \<Rightarrow> board" where
  "drop_piece b row col piece = set_cell b row col piece"

definition is_valid_location :: "board \<Rightarrow> nat \<Rightarrow> bool" where
  "is_valid_location b col \<longleftrightarrow> b 0 col = 0"

text \<open>
  The loop runs \<open>r\<close> from \<open>ROW_COUNT - 1\<close> down to \<open>0\<close> and returns at the first
  empty cell; falling out of the loop returns \<^verbatim>\<open>None\<close>.
\<close>

definition get_next_open_row :: "board \<Rightarrow> nat \<Rightarrow> nat option" where
  "get_next_open_row b col = find (\<lambda>r. b r col = 0) (rev [0..<ROW_COUNT])"

text \<open>
  Four scans, each a pair of nested loops that returns \<^verbatim>\<open>True\<close> at the first hit.
\<close>

definition winning_move :: "board \<Rightarrow> int \<Rightarrow> bool" where
  "winning_move b piece \<longleftrightarrow>
     list_ex (\<lambda>c. list_ex (\<lambda>r.
         b r c = piece \<and> b r (c + 1) = piece \<and> b r (c + 2) = piece \<and> b r (c + 3) = piece)
       [0..<ROW_COUNT]) [0..<COLUMN_COUNT - 3]
   \<or> list_ex (\<lambda>c. list_ex (\<lambda>r.
         b r c = piece \<and> b (r + 1) c = piece \<and> b (r + 2) c = piece \<and> b (r + 3) c = piece)
       [0..<ROW_COUNT - 3]) [0..<COLUMN_COUNT]
   \<or> list_ex (\<lambda>c. list_ex (\<lambda>r.
         b r c = piece \<and> b (r + 1) (c + 1) = piece \<and> b (r + 2) (c + 2) = piece
         \<and> b (r + 3) (c + 3) = piece)
       [0..<ROW_COUNT - 3]) [0..<COLUMN_COUNT - 3]
   \<or> list_ex (\<lambda>c. list_ex (\<lambda>r.
         b r c = piece \<and> b (r - 1) (c + 1) = piece \<and> b (r - 2) (c + 2) = piece
         \<and> b (r - 3) (c + 3) = piece)
       [3..<ROW_COUNT]) [0..<COLUMN_COUNT - 3]"

definition evaluate_window :: "int list \<Rightarrow> int \<Rightarrow> int" where
  "evaluate_window window piece =
     (let score = 0;
          opp_piece = (if piece = PLAYER_PIECE then AI_PIECE else PLAYER_PIECE);
          score =
            (if count_list window piece = 4 then score + 100
             else if count_list window piece = 3 \<and> count_list window EMPTY = 1 then score + 5
             else if count_list window piece = 2 \<and> count_list window EMPTY = 2 then score + 2
             else score);
          score =
            (if count_list window opp_piece = 3 \<and> count_list window EMPTY = 1 then score - 4
             else score)
      in score)"

text \<open>The Python slice \<^verbatim>\<open>xs[i:j]\<close> for \<open>0 \<le> i \<le> j\<close>.\<close>

definition slice :: "'a list \<Rightarrow> nat \<Rightarrow> nat \<Rightarrow> 'a list" where
  "slice xs i j = take (j - i) (drop i xs)"

definition score_position :: "board \<Rightarrow> int \<Rightarrow> int" where
  "score_position b piece =
     (let score = 0;
          center_array = map (\<lambda>r. b r (COLUMN_COUNT div 2)) [0..<ROW_COUNT];
          center_count = count_list center_array piece;
          score = score + int center_count * 3;
          score = fold (\<lambda>r score.
                    let row_array = map (\<lambda>c. b r c) [0..<COLUMN_COUNT] in
                    fold (\<lambda>c score.
                      let window = slice row_array c (c + WINDOW_LENGTH) in
                      score + evaluate_window window piece)
                    [0..<COLUMN_COUNT - 3] score)
                  [0..<ROW_COUNT] score;
          score = fold (\<lambda>c score.
                    let col_array = map (\<lambda>r. b r c) [0..<ROW_COUNT] in
                    fold (\<lambda>r score.
                      let window = slice col_array r (r + WINDOW_LENGTH) in
                      score + evaluate_window window piece)
                    [0..<ROW_COUNT - 3] score)
                  [0..<COLUMN_COUNT] score
      in score)"

definition get_valid_locations :: "board \<Rightarrow> nat list" where
  "get_valid_locations b = filter (\<lambda>col. is_valid_location b col) [0..<COLUMN_COUNT]"

definition is_terminal_node :: "board \<Rightarrow> bool" where
  "is_terminal_node b \<longleftrightarrow>
     winning_move b PLAYER_PIECE \<or> winning_move b AI_PIECE
     \<or> length (get_valid_locations b) = 0"

text \<open>
  The state the search runs in: the value of \<^verbatim>\<open>self.board\<close> and the state of the
  \<^verbatim>\<open>random\<close> module, a sequence of the numbers still to be drawn.
  \<^verbatim>\<open>self.board.copy()\<close> is a full value copy, so assigning it back to
  \<^verbatim>\<open>self.board\<close> sets the board component to the value saved.
\<close>

record state =
  board :: board
  rng :: "nat \<Rightarrow> nat"

text \<open>
  \<^verbatim>\<open>random.choice(seq)\<close> raises \<^verbatim>\<open>IndexError\<close> on an empty sequence and
  otherwise returns the element at a drawn index below \<open>len(seq)\<close>.
\<close>

definition random_choice :: "(nat \<Rightarrow> nat) \<Rightarrow> 'a list \<Rightarrow> error + ('a \<times> (nat \<Rightarrow> nat))" where
  "random_choice g xs =
     (if xs = [] then Inl IndexError
      else Inr (xs ! (g 0 mod length xs), \<lambda>n. g (Suc n)))"

text \<open>
  The two \<^verbatim>\<open>for col in valid_locations\<close> loops of \<^verbatim>\<open>minimax\<close>, with the
  loop variables \<open>value\<close>, \<open>column\<close> and \<open>alpha\<close> (or \<open>beta\<close>) as
  arguments and \<open>child\<close> standing for the recursive call. \<^verbatim>\<open>break\<close> leaves the
  loop for the \<^verbatim>\<open>return column, value\<close> that follows it. The columns of the loop are
  the valid ones, whose next open row is never \<^verbatim>\<open>None\<close> (lemma
  \<open>valid_column_has_open_row\<close>); for another column the model stops with
  \<open>NoOpenRow\<close>.
\<close>

type_synonym outcome = "error + ((nat option \<times> score) \<times> state)"

primrec max_loop ::
  "(state \<Rightarrow> score \<Rightarrow> score \<Rightarrow> outcome) \<Rightarrow> state \<Rightarrow> nat list \<Rightarrow> score \<Rightarrow> nat \<Rightarrow> score \<Rightarrow> score \<Rightarrow> outcome"
where
  "max_loop child s [] value column alpha beta = Inr ((Some column, value), s)"
| "max_loop child s (col # cols) value column alpha beta =
     (case get_next_open_row (board s) col of
        None \<Rightarrow> Inl NoOpenRow
      | Some row \<Rightarrow>
          (let b_copy = board s;
               s = s\<lparr>board := set_cell (board s) row col AI_PIECE\<rparr> in
           case child s alpha beta of
             Inl e \<Rightarrow> Inl e
           | Inr ((_, new_score), s) \<Rightarrow>
               (let s = s\<lparr>board := b_copy\<rparr>;
                    (value, column) =
                      (if new_score > value then (new_score, col) else (value, column));
                    alpha = max alpha value in
                if alpha \<ge> beta then Inr ((Some column, value), s)
                else max_loop child s cols value column alpha beta)))"

primrec min_loop ::
  "(state \<Rightarrow> score \<Rightarrow> score \<Rightarrow> outcome) \<Rightarrow> state \<Rightarrow> nat list \<Rightarrow> score \<Rightarrow> nat \<Rightarrow> score \<Rightarrow> score \<Rightarrow> outcome"
where
  "min_loop child s [] value column alpha beta = Inr ((Some column, value), s)"
| "min_loop child s (col # cols) value column alpha beta =
     (case get_next_open_row (board s) col of
        None \<Rightarrow> Inl NoOpenRow
      | Some row \<Rightarrow>
          (let b_copy = board s;
               s = s\<lparr>board := set_cell (board s) row col PLAYER_PIECE\<rparr> in
           case child s alpha beta of
             Inl e \<Rightarrow> Inl e
           | Inr ((_, new_score), s) \<Rightarrow>
               (let s = s\<lparr>board := b_copy\<rparr>;
                    (value, column) =
                      (if new_score < value then (new_score, col) else (value, column));
                    beta = min beta value in
                if alpha \<ge> beta then Inr ((Some column, value), s)
                else min_loop child s cols value column alpha beta)))"

text \<open>
  The recursion of \<^verbatim>\<open>minimax\<close> ends for every depth, also a negative one: each
  recursive call runs on a board with one empty cell fewer.
\<close>

definition empty_cells :: "board \<Rightarrow> nat" where
  "empty_cells b = card {(r, c). r < ROW_COUNT \<and> c < COLUMN_COUNT \<and> b r c = 0}"

lemma max_loop_agree:
  "\<forall>col\<in>set cols. \<forall>row t a b. get_next_open_row B col = Some row \<longrightarrow>
      board t = set_cell B row col AI_PIECE \<longrightarrow> f t a b = g t a b \<Longrightarrow>
   board s = B \<Longrightarrow>
   max_loop f s cols v c alpha beta = max_loop g s cols v c alpha beta"
proof (induction cols arbitrary: s v c alpha)
  case Nil
  show ?case by simp
next
  case (Cons col cols)
  have rest: "\<And>s v c alpha. board s = B \<Longrightarrow>
      max_loop f s cols v c alpha beta = max_loop g s cols v c alpha beta"
    using Cons.IH Cons.prems(1) by simp
  have hd: "\<And>row t a b. get_next_open_row B col = Some row \<Longrightarrow>
      board t = set_cell B row col AI_PIECE \<Longrightarrow> f t a b = g t a b"
    using Cons.prems(1) by simp
  show ?case
    using Cons.prems(2)
    by (auto simp: Let_def hd rest split: option.splits sum.splits prod.splits)
qed

lemma max_loop_cong [fundef_cong]:
  assumes "s = s'" "cols = cols'" "v = v'" "c = c'" "alpha = alpha'" "beta = beta'"
    and "\<And>t a b col row. col \<in> set cols' \<Longrightarrow> get_next_open_row (board s') col = Some row \<Longrightarrow>
           board t = set_cell (board s') row col AI_PIECE \<Longrightarrow> f t a b = g t a b"
  shows "max_loop f s cols v c alpha beta = max_loop g s' cols' v' c' alpha' beta'"
  unfolding assms(1-6)
  by (rule max_loop_agree[where B = "board s'"]) (use assms(7) in auto)

lemma min_loop_agree:
  "\<forall>col\<in>set cols. \<forall>row t a b. get_next_open_row B col = Some row \<longrightarrow>
      board t = set_cell B row col PLAYER_PIECE \<longrightarrow> f t a b = g t a b \<Longrightarrow>
   board s = B \<Longrightarrow>
   min_loop f s cols v c alpha beta = min_loop g s cols v c alpha beta"
proof (induction cols arbitrary: s v c beta)
  case Nil
  show ?case by simp
next
  case (Cons col cols)
  have rest: "\<And>s v c beta. board s = B \<Longrightarrow>
      min_loop f s cols v c alpha beta = min_loop g s cols v c alpha beta"
    using Cons.IH Cons.prems(1) by simp
  have hd: "\<And>row t a b. get_next_open_row B col = Some row \<Longrightarrow>
      board t = set_cell B row col PLAYER_PIECE \<Longrightarrow> f t a b = g t a b"
    using Cons.prems(1) by simp
  show ?case
    using Cons.prems(2)
    by (auto simp: Let_def hd rest split: option.splits sum.splits prod.splits)
qed

lemma min_loop_cong [fundef_cong]:
  assumes "s = s'" "cols = cols'" "v = v'" "c = c'" "alpha = alpha'" "beta = beta'"
    and "\<And>t a b col row. col \<in> set cols' \<Longrightarrow> get_next_open_row (board s') col = Some row \<Longrightarrow>
           board t = set_cell (board s') row col PLAYER_PIECE \<Longrightarrow> f t a b = g t a b"
  shows "min_loop f s cols v c alpha beta = min_loop g s' cols' v' c' alpha' beta'"
  unfolding assms(1-6)
  by (rule min_loop_agree[where B = "board s'"]) (use assms(7) in auto)

lemma get_next_open_row_Some:
  assumes "get_next_open_row b col = Some row"
  shows "row < ROW_COUNT" and "b row col = 0"
    and "\<And>r. row < r \<Longrightarrow> r < ROW_COUNT \<Longrightarrow> b r col \<noteq> 0"
proof -
  from assms obtain i where i: "i < length (rev [0..<ROW_COUNT])"
      "b (rev [0..<ROW_COUNT] ! i) col = 0" "row = rev [0..<ROW_COUNT] ! i"
      "\<forall>j<i. b (rev [0..<ROW_COUNT] ! j) col \<noteq> 0"
    unfolding get_next_open_row_def find_Some_iff by blast
  have idx: "rev [0..<ROW_COUNT] ! j = ROW_COUNT - 1 - j" if "j < ROW_COUNT" for j
    using that by (simp add: rev_nth)
  from i(1) have il: "i < ROW_COUNT" by simp
  show "row < ROW_COUNT" using i(3) il idx[OF il] by simp
  show "b row col = 0" using i(2,3) by simp
  show "b r col \<noteq> 0" if "row < r" "r < ROW_COUNT" for r
  proof -
    have row: "row = 5 - i" using i(3) il idx[OF il] by simp
    let ?j = "5 - r"
    have "?j < i" using that row il by arith
    moreover have "rev [0..<ROW_COUNT] ! ?j = r" using that idx[of ?j] by simp
    ultimately show ?thesis using i(4) by metis
  qed
qed

lemma get_next_open_row_None:
  "get_next_open_row b col = None \<longleftrightarrow> (\<forall>r<ROW_COUNT. b r col \<noteq> 0)"
  by (auto simp: get_next_open_row_def find_None_iff)

lemma valid_column_has_open_row:
  "col \<in> set (get_valid_locations b) \<Longrightarrow> \<exists>row. get_next_open_row b col = Some row"
  by (cases "get_next_open_row b col")
    (auto simp: get_next_open_row_None get_valid_locations_def is_valid_location_def)

lemma set_get_valid_locations:
  "col \<in> set (get_valid_locations b) \<longleftrightarrow> col < COLUMN_COUNT \<and> b 0 col = 0"
  by (auto simp: get_valid_locations_def is_valid_location_def)

lemma empty_cells_set_cell:
  assumes "r < ROW_COUNT" "c < COLUMN_COUNT" "b r c = 0" "v \<noteq> 0"
  shows "empty_cells (set_cell b r c v) < empty_cells b"
proof -
  let ?A = "{(r, c). r < ROW_COUNT \<and> c < COLUMN_COUNT \<and> b r c = 0}"
  let ?B = "{(r', c'). r' < ROW_COUNT \<and> c' < COLUMN_COUNT \<and> set_cell b r c v r' c' = 0}"
  have fin: "finite ?A"
    by (rule finite_subset[of _ "{..<ROW_COUNT} \<times> {..<COLUMN_COUNT}"]) auto
  have "?B \<subseteq> ?A" using assms(4) by (auto simp: set_cell_def split: if_splits)
  moreover have "(r, c) \<in> ?A" "(r, c) \<notin> ?B" using assms by (auto simp: set_cell_def)
  ultimately have "?B \<subset> ?A" by blast
  then show ?thesis unfolding empty_cells_def by (rule psubset_card_mono[OF fin])
qed

lemma drop_decreases:
  assumes "col \<in> set (get_valid_locations b)" "get_next_open_row b col = Some row" "v \<noteq> 0"
  shows "empty_cells (set_cell b row col v) < empty_cells b"
  using assms get_next_open_row_Some(1,2)[OF assms(2)]
  by (intro empty_cells_set_cell) (auto simp: set_get_valid_locations)

text \<open>
  \<^verbatim>\<open>minimax\<close> never reads its parameter \<^verbatim>\<open>board\<close>, only \<^verbatim>\<open>self.board\<close>;
  the parameter is left out.
\<close>

function minimax :: "state \<Rightarrow> int \<Rightarrow> score \<Rightarrow> score \<Rightarrow> bool \<Rightarrow> outcome" where
  "minimax s depth alpha beta maximizingPlayer =
     (let valid_locations = get_valid_locations (board s);
          is_terminal = is_terminal_node (board s) in
      if depth = 0 \<or> is_terminal then
        (if is_terminal then
           (if winning_move (board s) AI_PIECE then Inr ((None, Fin 100000000000000), s)
            else if winning_move (board s) PLAYER_PIECE then Inr ((None, Fin (- 10000000000000)), s)
            else Inr ((None, Fin 0), s))
         else Inr ((None, Fin (score_position (board s) AI_PIECE)), s))
      else if maximizingPlayer then
        (case random_choice (rng s) valid_locations of
           Inl e \<Rightarrow> Inl e
         | Inr (column, g) \<Rightarrow>
             max_loop (\<lambda>t a b. minimax t (depth - 1) a b False)
               (s\<lparr>rng := g\<rparr>) valid_locations NegInf column alpha beta)
      else
        (case random_choice (rng s) valid_locations of
           Inl e \<Rightarrow> Inl e
         | Inr (column, g) \<Rightarrow>
             min_loop (\<lambda>t a b. minimax t (depth - 1) a b True)
               (s\<lparr>rng := g\<rparr>) valid_locations PosInf column alpha beta))"
  by pat_completeness auto
termination
  by (relation "measure (\<lambda>(s, depth, alpha, beta, m). empty_cells (board s))")
    (auto simp: drop_decreases)

declare minimax.simps [simp del]

definition get_best_move :: "state \<Rightarrow> int \<Rightarrow> error + (nat option \<times> state)" where
  "get_best_move s depth =
     (case minimax s depth NegInf PosInf True of
        Inl e \<Rightarrow> Inl e
      | Inr ((col, minimax_score), s) \<Rightarrow> Inr (col, s))"

section \<open>GodModeEngine\<close>

text \<open>
  Both methods take arbitrary Python integers and check the range themselves. The store
  of \<open>piece\<close> into the 64-bit array raises \<^verbatim>\<open>OverflowError\<close> when the integer does
  not fit; \<open>EMPTY\<close> always fits.
\<close>

definition force_place_token :: "board \<Rightarrow> int \<Rightarrow> int \<Rightarrow> int \<Rightarrow> error + (bool \<times> board)" where
  "force_place_token b row col piece =
     (if 0 \<le> row \<and> row < int ROW_COUNT \<and> 0 \<le> col \<and> col < int COLUMN_COUNT then
        (if int64 piece then Inr (True, set_cell b (nat row) (nat col) piece)
         else Inl OverflowError)
      else Inr (False, b))"

definition remove_token :: "board \<Rightarrow> int \<Rightarrow> int \<Rightarrow> error + (bool \<times> board)" where
  "remove_token b row col =
     (if 0 \<le> row \<and> row < int ROW_COUNT \<and> 0 \<le> col \<and> col < int COLUMN_COUNT then
        Inr (True, set_cell b (nat row) (nat col) EMPTY)
      else Inr (False, b))"

definition wipe_board :: "board \<Rightarrow> board" where
  "wipe_board b = create_board"


section \<open>Reference definitions for the properties\<close>

text \<open>
  Four consecutive cells of the grid holding \<open>token\<close>, starting at \<open>(r, c)\<close> and
  running to the right, downwards, down and to the right, or down and to the left.
\<close>

definition four_in_line :: "board \<Rightarrow> int \<Rightarrow> bool" where
  "four_in_line b token \<longleftrightarrow>
     (\<exists>r\<in>{0..<ROW_COUNT}. \<exists>c\<in>{0..<COLUMN_COUNT}.
        (c + 3 < COLUMN_COUNT \<and>
           b r c = token \<and> b r (c + 1) = token \<and> b r (c + 2) = token \<and> b r (c + 3) = token)
      \<or> (r + 3 < ROW_COUNT \<and>
           b r c = token \<and> b (r + 1) c = token \<and> b (r + 2) c = token \<and> b (r + 3) c = token)
      \<or> (r + 3 < ROW_COUNT \<and> c + 3 < COLUMN_COUNT \<and>
           b r c = token \<and> b (r + 1) (c + 1) = token \<and> b (r + 2) (c + 2) = token
           \<and> b (r + 3) (c + 3) = token)
      \<or> (r + 3 < ROW_COUNT \<and> 3 \<le> c \<and>
           b r c = token \<and> b (r + 1) (c - 1) = token \<and> b (r + 2) (c - 2) = token
           \<and> b (r + 3) (c - 3) = token))"

text \<open>
  The other one of the two tokens, as \<^verbatim>\<open>evaluate_window\<close> chooses it.
\<close>

definition opponent :: "int \<Rightarrow> int" where
  "opponent token = (if token = PLAYER_PIECE then AI_PIECE else PLAYER_PIECE)"

text \<open>
  The gravity invariant: no token floats above an empty cell.
\<close>

definition gravity :: "board \<Rightarrow> bool" where
  "gravity b \<longleftrightarrow>
     (\<forall>r\<in>{0..<ROW_COUNT - 1}. \<forall>c\<in>{0..<COLUMN_COUNT}. b r c \<noteq> EMPTY \<longrightarrow> b (r + 1) c \<noteq> EMPTY)"

text \<open>
  A sequence of rule-driven drops, each given by the column the caller passes and the token:
  the column is taken as numpy indexes it, the drop is made only where
  \<^verbatim>\<open>is_valid_location\<close> holds, at the row \<^verbatim>\<open>get_next_open_row\<close> returns, through
  \<^verbatim>\<open>drop_piece\<close>. \<open>None\<close> says that the sequence is not one of rule-driven drops.
\<close>

fun rule_drops :: "board \<Rightarrow> (int \<times> int) list \<Rightarrow> board option" where
  "rule_drops b [] = Some b"
| "rule_drops b ((c, token) # ds) =
     (case np_index COLUMN_COUNT c of
        Inl e \<Rightarrow> None
      | Inr col \<Rightarrow>
          if is_valid_location b col then
            (case get_next_open_row b col of
               None \<Rightarrow> None
             | Some row \<Rightarrow>
                 if int64 token then rule_drops (drop_piece b row col token) ds else None)
          else None)"

text \<open>
  The centre-column bonus and the sum of \<^verbatim>\<open>evaluate_window\<close> over the horizontal
  and the vertical windows of four cells.
\<close>

definition window_sum :: "board \<Rightarrow> int \<Rightarrow> int" where
  "window_sum b token =
     int (count_list (map (\<lambda>r. b r 3) [0..<ROW_COUNT]) token) * 3
     + (\<Sum>r\<in>{0..<ROW_COUNT}. \<Sum>c\<in>{0..<COLUMN_COUNT - 3}.
          evaluate_window [b r c, b r (c + 1), b r (c + 2), b r (c + 3)] token)
     + (\<Sum>c\<in>{0..<COLUMN_COUNT}. \<Sum>r\<in>{0..<ROW_COUNT - 3}.
          evaluate_window [b r c, b (r + 1) c, b (r + 2) c, b (r + 3) c] token)"

text \<open>
  The unpruned search: the recursion of \<^verbatim>\<open>minimax\<close> without \<open>alpha\<close>,
  \<open>beta\<close> and the cut-off, on boards passed as values. \<open>pick\<close> is the tie-break
  rule that seeds the best column from the valid ones.
\<close>

definition drop_token :: "board \<Rightarrow> nat \<Rightarrow> int \<Rightarrow> board" where
  "drop_token b col token =
     (case get_next_open_row b col of None \<Rightarrow> b | Some row \<Rightarrow> drop_piece b row col token)"

primrec full_max_loop :: "(nat \<Rightarrow> score) \<Rightarrow> nat list \<Rightarrow> score \<Rightarrow> nat \<Rightarrow> nat option \<times> score" where
  "full_max_loop child [] value column = (Some column, value)"
| "full_max_loop child (col # cols) value column =
     (let new_score = child col in
      if new_score > value then full_max_loop child cols new_score col
      else full_max_loop child cols value column)"

primrec full_min_loop :: "(nat \<Rightarrow> score) \<Rightarrow> nat list \<Rightarrow> score \<Rightarrow> nat \<Rightarrow> nat option \<times> score" where
  "full_min_loop child [] value column = (Some column, value)"
| "full_min_loop child (col # cols) value column =
     (let new_score = child col in
      if new_score < value then full_min_loop child cols new_score col
      else full_min_loop child cols value column)"

lemma full_max_loop_cong [fundef_cong]:
  "cols = cols' \<Longrightarrow> v = v' \<Longrightarrow> c = c' \<Longrightarrow> (\<And>col. col \<in> set cols' \<Longrightarrow> f col = g col) \<Longrightarrow>
   full_max_loop f cols v c = full_max_loop g cols' v' c'"
  by (induction cols' arbitrary: cols v v' c c') (auto simp: Let_def)

lemma full_min_loop_cong [fundef_cong]:
  "cols = cols' \<Longrightarrow> v = v' \<Longrightarrow> c = c' \<Longrightarrow> (\<And>col. col \<in> set cols' \<Longrightarrow> f col = g col) \<Longrightarrow>
   full_min_loop f cols v c = full_min_loop g cols' v' c'"
  by (induction cols' arbitrary: cols v v' c c') (auto simp: Let_def)

lemma drop_token_valid:
  "get_next_open_row b col = Some row \<Longrightarrow> drop_token b col token = set_cell b row col token"
  by (simp add: drop_token_def drop_piece_def)

lemma drop_token_decreases:
  assumes "col \<in> set (get_valid_locations b)" "token \<noteq> 0"
  shows "empty_cells (drop_token b col token) < empty_cells b"
proof -
  from valid_column_has_open_row[OF assms(1)] obtain row where "get_next_open_row b col = Some row" ..
  then show ?thesis using drop_decreases[OF assms(1) _ assms(2)] by (simp add: drop_token_valid)
qed

function full_minimax :: "(nat list \<Rightarrow> nat) \<Rightarrow> board \<Rightarrow> int \<Rightarrow> bool \<Rightarrow> nat option \<times> score" where
  "full_minimax pick b depth maximizingPlayer =
     (let valid_locations = get_valid_locations b;
          is_terminal = is_terminal_node b in
      if depth = 0 \<or> is_terminal then
        (if is_terminal then
           (if winning_move b AI_PIECE then (None, Fin 100000000000000)
            else if winning_move b PLAYER_PIECE then (None, Fin (- 10000000000000))
            else (None, Fin 0))
         else (None, Fin (score_position b AI_PIECE)))
      else if maximizingPlayer then
        full_max_loop (\<lambda>col. snd (full_minimax pick (drop_token b col AI_PIECE) (depth - 1) False))
          valid_locations NegInf (pick valid_locations)
      else
        full_min_loop (\<lambda>col. snd (full_minimax pick (drop_token b col PLAYER_PIECE) (depth - 1) True))
          valid_locations PosInf (pick valid_locations))"
  by pat_completeness auto
termination
  by (relation "measure (\<lambda>(pick, b, depth, m). empty_cells b)")
    (auto simp: drop_token_decreases)

declare full_minimax.simps [simp del]

text \<open>
  A grid on which both tokens have four in a row: the AI token on the bottom row, the
  human token on the row above it, columns 0 to 3.
\<close>

definition double_win_board :: board where
  "double_win_board =
     set_cell (set_cell (set_cell (set_cell
       (set_cell (set_cell (set_cell (set_cell create_board
          5 0 AI_PIECE) 5 1 AI_PIECE) 5 2 AI_PIECE) 5 3 AI_PIECE)
          4 0 PLAYER_PIECE) 4 1 PLAYER_PIECE) 4 2 PLAYER_PIECE) 4 3 PLAYER_PIECE"

text \<open>
  What a search with window \<open>(a, b)\<close> may return as \<open>w\<close> when the unpruned value
  is \<open>v\<close>: the value itself inside the window, an upper bound of it at or below
  \<open>a\<close>, a lower bound of it at or above \<open>b\<close>.
\<close>

definition soft_bound :: "score \<Rightarrow> score \<Rightarrow> score \<Rightarrow> score \<Rightarrow> bool" where
  "soft_bound a b v w \<longleftrightarrow> (w \<le> a \<longrightarrow> v \<le> w) \<and> (a < w \<and> w < b \<longrightarrow> w = v) \<and> (b \<le> w \<longrightarrow> w \<le> v)"

section \<open>Win detection\<close>

lemma winning_move_imp: "winning_move b piece \<Longrightarrow> four_in_line b piece"
  unfolding winning_move_def list_ex_iff set_upt
proof (elim disjE bexE conjE)
  fix c r assume "c \<in> {0..<COLUMN_COUNT - 3}" "r \<in> {0..<ROW_COUNT}"
    "b r c = piece" "b r (c + 1) = piece" "b r (c + 2) = piece" "b r (c + 3) = piece"
  then show ?thesis unfolding four_in_line_def
    by - (rule bexI[of _ r], rule bexI[of _ c], auto)
next
  fix c r assume "c \<in> {0..<COLUMN_COUNT}" "r \<in> {0..<ROW_COUNT - 3}"
    "b r c = piece" "b (r + 1) c = piece" "b (r + 2) c = piece" "b (r + 3) c = piece"
  then show ?thesis unfolding four_in_line_def
    by - (rule bexI[of _ r], rule bexI[of _ c], auto)
next
  fix c r assume "c \<in> {0..<COLUMN_COUNT - 3}" "r \<in> {0..<ROW_COUNT - 3}"
    "b r c = piece" "b (r + 1) (c + 1) = piece" "b (r + 2) (c + 2) = piece" "b (r + 3) (c + 3) = piece"
  then show ?thesis unfolding four_in_line_def
    by - (rule bexI[of _ r], rule bexI[of _ c], auto)
next
  fix c r assume a: "c \<in> {0..<COLUMN_COUNT - 3}" "r \<in> {3..<ROW_COUNT}"
    "b r c = piece" "b (r - 1) (c + 1) = piece" "b (r - 2) (c + 2) = piece" "b (r - 3) (c + 3) = piece"
  from a(2) obtain r' where r': "r = r' + 3"
    by (metis atLeastLessThan_iff le_add_diff_inverse2)
  show ?thesis unfolding four_in_line_def
    by (rule bexI[of _ r'], rule bexI[of _ "c + 3"]) (use a r' in auto)
qed

lemma four_in_line_imp: "four_in_line b piece \<Longrightarrow> winning_move b piece"
  unfolding four_in_line_def
proof (elim disjE bexE conjE)
  fix r c assume "r \<in> {0..<ROW_COUNT}" "c \<in> {0..<COLUMN_COUNT}" "c + 3 < COLUMN_COUNT"
    "b r c = piece" "b r (c + 1) = piece" "b r (c + 2) = piece" "b r (c + 3) = piece"
  then show ?thesis unfolding winning_move_def list_ex_iff set_upt
    by - (rule disjI1, rule bexI[of _ c], rule bexI[of _ r], auto)
next
  fix r c assume "r \<in> {0..<ROW_COUNT}" "c \<in> {0..<COLUMN_COUNT}" "r + 3 < ROW_COUNT"
    "b r c = piece" "b (r + 1) c = piece" "b (r + 2) c = piece" "b (r + 3) c = piece"
  then show ?thesis unfolding winning_move_def list_ex_iff set_upt
    by - (rule disjI2, rule disjI1, rule bexI[of _ c], rule bexI[of _ r], auto)
next
  fix r c assume "r \<in> {0..<ROW_COUNT}" "c \<in> {0..<COLUMN_COUNT}" "r + 3 < ROW_COUNT" "c + 3 < COLUMN_COUNT"
    "b r c = piece" "b (r + 1) (c + 1) = piece" "b (r + 2) (c + 2) = piece" "b (r + 3) (c + 3) = piece"
  then show ?thesis unfolding winning_move_def list_ex_iff set_upt
    by - (rule disjI2, rule disjI2, rule disjI1, rule bexI[of _ c], rule bexI[of _ r], auto)
next
  fix r c assume a: "r \<in> {0..<ROW_COUNT}" "c \<in> {0..<COLUMN_COUNT}" "r + 3 < ROW_COUNT" "3 \<le> c"
    "b r c = piece" "b (r + 1) (c - 1) = piece" "b (r + 2) (c - 2) = piece" "b (r + 3) (c - 3) = piece"
  from a(4) obtain c' where c': "c = c' + 3"
    by (metis le_add_diff_inverse2)
  show ?thesis unfolding winning_move_def list_ex_iff set_upt
    by (rule disjI2, rule disjI2, rule disjI2, rule bexI[of _ c'], rule bexI[of _ "r + 3"])
      (use a c' in auto)
qed

text \<open>
  C4. On every grid, also one that violates gravity, and for every token,
  \<^verbatim>\<open>winning_move\<close> is true exactly when four consecutive cells of the 6 by 7 grid hold
  the token along a row, a column or one of the two diagonal directions.
\<close>

theorem winning_move_iff_four_in_line:
  "winning_move b piece \<longleftrightarrow> four_in_line b piece"
  using winning_move_imp four_in_line_imp by blast

theorem winning_move_iff_four_in_line_witness:
  "four_in_line (\<lambda>r c. if r = 2 \<and> c = 5 then 1 else if r + c = 6 \<and> 2 \<le> r then 1 else 0) 1
   \<and> \<not> four_in_line (\<lambda>r c. if r = 2 \<and> c = 5 then 1 else if r + c = 6 \<and> 2 \<le> r then 1 else 0) 2"
proof -
  let ?b = "\<lambda>r c::nat. if r = 2 \<and> c = 5 then 1 else if r + c = 6 \<and> 2 \<le> r then (1::int) else 0"
  have "winning_move ?b 1" by code_simp
  moreover have "\<not> winning_move ?b 2" by code_simp
  ultimately show ?thesis
    using winning_move_iff_four_in_line[of ?b 1] winning_move_iff_four_in_line[of ?b 2] by blast
qed

section \<open>Privileged edits\<close>

text \<open>
  C8. For every \<open>(row, col)\<close> outside the grid \<^verbatim>\<open>force_place_token\<close> and
  \<^verbatim>\<open>remove_token\<close> return the failure flag and leave the grid as it is. For every
  \<open>(row, col)\<close> inside, whatever the grid holds, \<^verbatim>\<open>force_place_token\<close> returns
  success with the token (any value a cell of the array can hold) written at that cell and
  \<^verbatim>\<open>remove_token\<close> returns success with that cell set to \<open>EMPTY\<close>; no other cell
  changes.
\<close>

theorem god_mode_bounds:
  "(\<not> (0 \<le> row \<and> row < int ROW_COUNT \<and> 0 \<le> col \<and> col < int COLUMN_COUNT) \<longrightarrow>
      force_place_token b row col piece = Inr (False, b) \<and>
      remove_token b row col = Inr (False, b))
   \<and> (0 \<le> row \<and> row < int ROW_COUNT \<and> 0 \<le> col \<and> col < int COLUMN_COUNT \<longrightarrow>
      (int64 piece \<longrightarrow>
        (\<exists>b'. force_place_token b row col piece = Inr (True, b') \<and>
          b' (nat row) (nat col) = piece \<and>
          (\<forall>r c. (r, c) \<noteq> (nat row, nat col) \<longrightarrow> b' r c = b r c))) \<and>
      (\<exists>b'. remove_token b row col = Inr (True, b') \<and>
          b' (nat row) (nat col) = EMPTY \<and>
          (\<forall>r c. (r, c) \<noteq> (nat row, nat col) \<longrightarrow> b' r c = b r c)))"
  by (auto simp: force_place_token_def remove_token_def set_cell_def)

theorem god_mode_bounds_witness:
  "force_place_token create_board 6 0 AI_PIECE = Inr (False, create_board)
   \<and> remove_token create_board 0 (- 1) = Inr (False, create_board)
   \<and> (\<exists>b'. force_place_token create_board 0 3 AI_PIECE = Inr (True, b') \<and> b' 0 3 = AI_PIECE)
   \<and> (\<exists>b'. remove_token create_board 5 6 = Inr (True, b') \<and> b' 5 6 = EMPTY)"
proof -
  have "int64 AI_PIECE" by (simp add: int64_def)
  then show ?thesis
    using god_mode_bounds[of 6 0 create_board AI_PIECE]
      god_mode_bounds[of 0 "- 1" create_board AI_PIECE]
      god_mode_bounds[of 0 3 create_board AI_PIECE]
      god_mode_bounds[of 5 6 create_board AI_PIECE]
    by auto
qed

section \<open>Gravity\<close>

lemma set_cell_apply:
  "set_cell b row col v r c = (if r = row \<and> c = col then v else b r c)"
  by (simp add: set_cell_def)

lemma gravity_drop:
  assumes "gravity b" "get_next_open_row b col = Some row"
  shows "gravity (drop_piece b row col token)"
proof -
  note open_row = get_next_open_row_Some[OF assms(2)]
  have G: "b (r + 1) c \<noteq> 0" if "r < 5" "c < COLUMN_COUNT" "b r c \<noteq> 0" for r c
    using assms(1) that by (auto simp: gravity_def)
  have "set_cell b row col token (r + 1) c \<noteq> 0"
    if rc: "r < 5" "c < COLUMN_COUNT" and ne: "set_cell b row col token r c \<noteq> 0" for r c
  proof (cases "c = col")
    case False
    then show ?thesis using G[OF rc] ne by (simp add: set_cell_apply)
  next
    case True
    consider "r + 1 < row" | "r + 1 = row" | "r = row" | "row < r"
      by arith
    then show ?thesis
    proof cases
      case 1
      then show ?thesis using G[OF rc] ne by (simp add: set_cell_apply)
    next
      case 2
      then have "b r col \<noteq> 0" using ne True by (simp add: set_cell_apply)
      then have "b row col \<noteq> 0" using G[of r col] rc 2 True by auto
      then show ?thesis using open_row(2) by simp
    next
      case 3
      then have "b (r + 1) col \<noteq> 0" using open_row(3)[of "r + 1"] rc by auto
      then show ?thesis using 3 True by (simp add: set_cell_apply)
    next
      case 4
      then have "b (r + 1) col \<noteq> 0" using open_row(3)[of "r + 1"] rc by auto
      then show ?thesis using 4 True by (simp add: set_cell_apply)
    qed
  qed
  then show ?thesis
    by (auto simp: gravity_def drop_piece_def)
qed

lemma gravity_rule_drops:
  "gravity b \<Longrightarrow> rule_drops b ds = Some b' \<Longrightarrow> gravity b'"
proof (induction ds arbitrary: b)
  case Nil
  then show ?case by simp
next
  case (Cons d ds)
  obtain c token where d: "d = (c, token)" by (cases d)
  from Cons.prems(2) obtain col row where
    "get_next_open_row b col = Some row" "rule_drops (drop_piece b row col token) ds = Some b'"
    unfolding d by (auto split: sum.splits if_splits option.splits)
  then show ?case using Cons.IH gravity_drop[OF Cons.prems(1)] by blast
qed

text \<open>
  C5. Starting from the empty grid, after any sequence of rule-driven drops every
  non-empty cell above the bottom row has a non-empty cell below it.
\<close>

theorem gravity_invariant:
  "rule_drops create_board ds = Some b \<Longrightarrow> gravity b"
proof -
  have "gravity create_board" by (simp add: gravity_def create_board_def)
  then show "rule_drops create_board ds = Some b \<Longrightarrow> gravity b"
    by (rule gravity_rule_drops)
qed

theorem gravity_invariant_witness:
  "\<exists>b. rule_drops create_board [(3, PLAYER_PIECE), (3, AI_PIECE), (- 1, PLAYER_PIECE)] = Some b
     \<and> gravity b"
proof -
  let ?ds = "[(3, PLAYER_PIECE), (3, AI_PIECE), (- 1, PLAYER_PIECE)]"
  have "case rule_drops create_board ?ds of None \<Rightarrow> False | Some b \<Rightarrow> True"
    by code_simp
  then obtain b where b: "rule_drops create_board ?ds = Some b"
    by (auto split: option.splits)
  from gravity_invariant[OF b] b show ?thesis by blast
qed

section \<open>The heuristic\<close>

lemma count_list_two_le:
  "x \<noteq> y \<Longrightarrow> count_list xs x + count_list xs y \<le> length xs"
  by (induction xs) auto

text \<open>
  C6. On a window of four cells \<^verbatim>\<open>evaluate_window\<close> returns 100 when the window holds
  four of the token, 5 for three of the token and one empty cell, 2 for two of the token
  and two empty cells, -4 for three of the opponent token and one empty cell, and 0 in
  every other case.
\<close>

theorem evaluate_window_cases:
  assumes "length window = 4"
  shows "(count_list window piece = 4 \<longrightarrow> evaluate_window window piece = 100)
       \<and> (count_list window piece = 3 \<and> count_list window EMPTY = 1 \<longrightarrow>
            evaluate_window window piece = 5)
       \<and> (count_list window piece = 2 \<and> count_list window EMPTY = 2 \<longrightarrow>
            evaluate_window window piece = 2)
       \<and> (count_list window (opponent piece) = 3 \<and> count_list window EMPTY = 1 \<longrightarrow>
            evaluate_window window piece = - 4)
       \<and> (\<not> count_list window piece = 4
            \<and> \<not> (count_list window piece = 3 \<and> count_list window EMPTY = 1)
            \<and> \<not> (count_list window piece = 2 \<and> count_list window EMPTY = 2)
            \<and> \<not> (count_list window (opponent piece) = 3 \<and> count_list window EMPTY = 1) \<longrightarrow>
            evaluate_window window piece = 0)"
proof -
  have ne: "opponent piece \<noteq> piece" "opponent piece \<noteq> EMPTY"
    by (auto simp: opponent_def)
  have a: "count_list window piece + count_list window (opponent piece) \<le> 4"
    using count_list_two_le[of piece "opponent piece" window] ne assms by simp
  have b: "piece \<noteq> EMPTY \<Longrightarrow> count_list window piece + count_list window EMPTY \<le> 4"
    using count_list_two_le[of piece EMPTY window] assms by simp
  have c: "count_list window (opponent piece) + count_list window EMPTY \<le> 4"
    using count_list_two_le[of "opponent piece" EMPTY window] ne assms by simp
  have o: "(if piece = PLAYER_PIECE then AI_PIECE else PLAYER_PIECE) = opponent piece"
    by (simp add: opponent_def)
  show ?thesis
    unfolding evaluate_window_def Let_def o
    using a b c by (cases "piece = EMPTY") auto
qed

theorem evaluate_window_cases_witness:
  "evaluate_window [2, 2, 2, 2] AI_PIECE = 100
   \<and> evaluate_window [2, 0, 2, 2] AI_PIECE = 5
   \<and> evaluate_window [0, 2, 0, 2] AI_PIECE = 2
   \<and> evaluate_window [1, 1, 0, 1] AI_PIECE = - 4
   \<and> evaluate_window [1, 2, 0, 2] AI_PIECE = 0"
  using evaluate_window_cases[of "[2, 2, 2, 2]" AI_PIECE]
    evaluate_window_cases[of "[2, 0, 2, 2]" AI_PIECE]
    evaluate_window_cases[of "[0, 2, 0, 2]" AI_PIECE]
    evaluate_window_cases[of "[1, 1, 0, 1]" AI_PIECE]
    evaluate_window_cases[of "[1, 2, 0, 2]" AI_PIECE]
  by (simp add: opponent_def)

lemma fold_plus_sum_list:
  "fold (\<lambda>x acc. acc + g x) xs (a::int) = a + sum_list (map g xs)"
  by (induction xs arbitrary: a) auto

lemma slice_map_upt:
  assumes "i + 4 \<le> n"
  shows "slice (map f [0..<n]) i (i + 4) = [f i, f (i + 1), f (i + 2), f (i + 3)]"
proof -
  have "take 4 (drop i (map f [0..<n])) = map f (take 4 [i..<n])"
    by (simp add: drop_map take_map)
  also have "take 4 [i..<n] = [i..<i + 4]"
    using assms by (simp add: take_upt)
  also have "[i..<i + 4] = [i, i + 1, i + 2, i + 3]"
    by (simp add: upt_rec numeral_eq_Suc)
  finally show ?thesis by (simp add: slice_def)
qed

lemma horizontal_fold:
  "fold (\<lambda>c acc. acc + evaluate_window
           (slice (map (\<lambda>c. b r c) [0..<COLUMN_COUNT]) c (c + WINDOW_LENGTH)) token)
     [0..<COLUMN_COUNT - 3]
   = (\<lambda>a::int. a + (\<Sum>c\<in>{0..<COLUMN_COUNT - 3}.
            evaluate_window [b r c, b r (c + 1), b r (c + 2), b r (c + 3)] token))"
proof
  fix a :: int
  have "sum_list (map (\<lambda>c. evaluate_window (slice (map (\<lambda>c. b r c) [0..<COLUMN_COUNT]) c (c + 4)) token)
          [0..<COLUMN_COUNT - 3])
      = sum_list (map (\<lambda>c. evaluate_window [b r c, b r (c + 1), b r (c + 2), b r (c + 3)] token)
          [0..<COLUMN_COUNT - 3])"
    by (rule arg_cong[where f = sum_list], rule map_cong) (auto simp: slice_map_upt)
  then show "fold (\<lambda>c acc. acc + evaluate_window
           (slice (map (\<lambda>c. b r c) [0..<COLUMN_COUNT]) c (c + WINDOW_LENGTH)) token)
     [0..<COLUMN_COUNT - 3] a
   = a + (\<Sum>c\<in>{0..<COLUMN_COUNT - 3}.
            evaluate_window [b r c, b r (c + 1), b r (c + 2), b r (c + 3)] token)"
    by (simp only: fold_plus_sum_list interv_sum_list_conv_sum_set_nat set_upt)
qed

lemma vertical_fold:
  "fold (\<lambda>r acc. acc + evaluate_window
           (slice (map (\<lambda>r. b r c) [0..<ROW_COUNT]) r (r + WINDOW_LENGTH)) token)
     [0..<ROW_COUNT - 3]
   = (\<lambda>a::int. a + (\<Sum>r\<in>{0..<ROW_COUNT - 3}.
            evaluate_window [b r c, b (r + 1) c, b (r + 2) c, b (r + 3) c] token))"
proof
  fix a :: int
  have "sum_list (map (\<lambda>r. evaluate_window (slice (map (\<lambda>r. b r c) [0..<ROW_COUNT]) r (r + 4)) token)
          [0..<ROW_COUNT - 3])
      = sum_list (map (\<lambda>r. evaluate_window [b r c, b (r + 1) c, b (r + 2) c, b (r + 3) c] token)
          [0..<ROW_COUNT - 3])"
    by (rule arg_cong[where f = sum_list], rule map_cong) (auto simp: slice_map_upt)
  then show "fold (\<lambda>r acc. acc + evaluate_window
           (slice (map (\<lambda>r. b r c) [0..<ROW_COUNT]) r (r + WINDOW_LENGTH)) token)
     [0..<ROW_COUNT - 3] a
   = a + (\<Sum>r\<in>{0..<ROW_COUNT - 3}.
            evaluate_window [b r c, b (r + 1) c, b (r + 2) c, b (r + 3) c] token)"
    by (simp only: fold_plus_sum_list interv_sum_list_conv_sum_set_nat set_upt)
qed

text \<open>
  C7. \<^verbatim>\<open>score_position\<close> is three times the number of cells of the middle column
  holding the token, plus the sum of \<^verbatim>\<open>evaluate_window\<close> over every horizontal and
  every vertical window of four cells; no diagonal window contributes.
\<close>

theorem score_position_window_sum:
  "score_position b piece = window_sum b piece"
proof -
  have "score_position b piece =
      fold (\<lambda>c acc. acc + (\<Sum>r\<in>{0..<ROW_COUNT - 3}.
            evaluate_window [b r c, b (r + 1) c, b (r + 2) c, b (r + 3) c] piece))
        [0..<COLUMN_COUNT]
        (fold (\<lambda>r acc. acc + (\<Sum>c\<in>{0..<COLUMN_COUNT - 3}.
            evaluate_window [b r c, b r (c + 1), b r (c + 2), b r (c + 3)] piece))
          [0..<ROW_COUNT]
          (0 + int (count_list (map (\<lambda>r. b r (COLUMN_COUNT div 2)) [0..<ROW_COUNT]) piece) * 3))"
    unfolding score_position_def Let_def
    by (simp only: horizontal_fold vertical_fold)
  also have "\<dots> = window_sum b piece"
    unfolding window_sum_def
    by (simp only: fold_plus_sum_list interv_sum_list_conv_sum_set_nat set_upt) simp
  finally show ?thesis .
qed

theorem score_position_window_sum_witness:
  "score_position (set_cell (set_cell create_board 5 3 AI_PIECE) 4 3 AI_PIECE) AI_PIECE = 8
   \<and> window_sum (set_cell (set_cell create_board 5 3 AI_PIECE) 4 3 AI_PIECE) AI_PIECE = 8"
proof -
  have "score_position (set_cell (set_cell create_board 5 3 AI_PIECE) 4 3 AI_PIECE) AI_PIECE = 8"
    by code_simp
  then show ?thesis
    using score_position_window_sum[of "set_cell (set_cell create_board 5 3 AI_PIECE) 4 3 AI_PIECE" AI_PIECE]
    by simp
qed

section \<open>The search\<close>

lemma state_restore:
  "(t::state)\<lparr>board := board (s::state)\<rparr> = s\<lparr>rng := rng t\<rparr>"
  by (cases s; cases t) simp

lemma max_loop_step:
  assumes "get_next_open_row (board s) col = Some row"
    and "child (s\<lparr>board := set_cell (board s) row col AI_PIECE\<rparr>) alpha beta = Inr ((x, w), t)"
  shows "max_loop child s (col # cols) v c alpha beta =
     (if beta \<le> max alpha (max v w)
      then Inr ((Some (if v < w then col else c), max v w), s\<lparr>rng := rng t\<rparr>)
      else max_loop child (s\<lparr>rng := rng t\<rparr>) cols (max v w) (if v < w then col else c)
             (max alpha (max v w)) beta)"
  using assms by (auto simp add: Let_def state_restore max_def)

lemma min_loop_step:
  assumes "get_next_open_row (board s) col = Some row"
    and "child (s\<lparr>board := set_cell (board s) row col PLAYER_PIECE\<rparr>) alpha beta = Inr ((x, w), t)"
  shows "min_loop child s (col # cols) v c alpha beta =
     (if min beta (min v w) \<le> alpha
      then Inr ((Some (if w < v then col else c), min v w), s\<lparr>rng := rng t\<rparr>)
      else min_loop child (s\<lparr>rng := rng t\<rparr>) cols (min v w) (if w < v then col else c)
             alpha (min beta (min v w)))"
  using assms by (auto simp add: Let_def state_restore min_def)

lemma max_loop_total:
  assumes "\<forall>col\<in>set cols. \<exists>row. get_next_open_row B col = Some row"
    and "\<forall>col\<in>set cols. \<forall>row t a b. get_next_open_row B col = Some row \<longrightarrow>
           board t = set_cell B row col AI_PIECE \<longrightarrow>
           (\<exists>x w t'. child t a b = Inr ((x, Fin w), t'))"
    and "board s = B"
  shows "\<exists>c' m g. max_loop child s cols v c alpha beta = Inr ((Some c', m), s\<lparr>rng := g\<rparr>)
           \<and> (c' = c \<and> m = v \<or> c' \<in> set cols \<and> (\<exists>w. m = Fin w))
           \<and> (v = NegInf \<and> cols \<noteq> [] \<longrightarrow> c' \<in> set cols \<and> (\<exists>w. m = Fin w))"
  using assms
proof (induction cols arbitrary: s v c alpha)
  case Nil
  have "s = s\<lparr>rng := rng s\<rparr>" by simp
  then show ?case by (metis max_loop.simps(1))
next
  case (Cons col cols)
  from Cons.prems(1) obtain row where row: "get_next_open_row (board s) col = Some row"
    using Cons.prems(3) by auto
  let ?t = "s\<lparr>board := set_cell (board s) row col AI_PIECE\<rparr>"
  from Cons.prems(2,3) row obtain x w t' where
    ch: "child ?t alpha beta = Inr ((x, Fin w), t')" by fastforce
  note step = max_loop_step[where child = child and s = s and alpha = alpha and beta = beta, OF row ch]
  let ?s = "s\<lparr>rng := rng t'\<rparr>"
  have IH: "\<exists>c' m g. max_loop child ?s cols v' c0 a' beta = Inr ((Some c', m), s\<lparr>rng := g\<rparr>)
           \<and> (c' = c0 \<and> m = v' \<or> c' \<in> set cols \<and> (\<exists>w. m = Fin w))" for v' c0 a'
  proof -
    have "\<forall>col\<in>set cols. \<exists>row. get_next_open_row B col = Some row"
      using Cons.prems(1) by simp
    moreover have "\<forall>col\<in>set cols. \<forall>row t a b. get_next_open_row B col = Some row \<longrightarrow>
           board t = set_cell B row col AI_PIECE \<longrightarrow>
           (\<exists>x w t'. child t a b = Inr ((x, Fin w), t'))"
      using Cons.prems(2) by simp
    moreover have "board ?s = B" using Cons.prems(3) by simp
    ultimately show ?thesis
      using Cons.IH[of ?s v' c0 a'] by auto
  qed
  have upd: "v < Fin w \<or> v \<noteq> NegInf \<and> max v (Fin w) = v"
    by (cases v) (auto simp: less_score_def max_def)
  have fin: "v < Fin w \<Longrightarrow> max v (Fin w) = Fin w" by (auto simp: max_def)
  show ?case
  proof (cases "beta \<le> max alpha (max v (Fin w))")
    case True
    then show ?thesis unfolding step using upd fin by auto
  next
    case False
    then show ?thesis unfolding step
      using upd fin IH[of "max v (Fin w)" "if v < Fin w then col else c" "max alpha (max v (Fin w))"]
      by auto
  qed
qed

lemma min_loop_total:
  assumes "\<forall>col\<in>set cols. \<exists>row. get_next_open_row B col = Some row"
    and "\<forall>col\<in>set cols. \<forall>row t a b. get_next_open_row B col = Some row \<longrightarrow>
           board t = set_cell B row col PLAYER_PIECE \<longrightarrow>
           (\<exists>x w t'. child t a b = Inr ((x, Fin w), t'))"
    and "board s = B"
  shows "\<exists>c' m g. min_loop child s cols v c alpha beta = Inr ((Some c', m), s\<lparr>rng := g\<rparr>)
           \<and> (c' = c \<and> m = v \<or> c' \<in> set cols \<and> (\<exists>w. m = Fin w))
           \<and> (v = PosInf \<and> cols \<noteq> [] \<longrightarrow> c' \<in> set cols \<and> (\<exists>w. m = Fin w))"
  using assms
proof (induction cols arbitrary: s v c beta)
  case Nil
  have "s = s\<lparr>rng := rng s\<rparr>" by simp
  then show ?case by (metis min_loop.simps(1))
next
  case (Cons col cols)
  from Cons.prems(1) obtain row where row: "get_next_open_row (board s) col = Some row"
    using Cons.prems(3) by auto
  let ?t = "s\<lparr>board := set_cell (board s) row col PLAYER_PIECE\<rparr>"
  from Cons.prems(2,3) row obtain x w t' where
    ch: "child ?t alpha beta = Inr ((x, Fin w), t')" by fastforce
  note step = min_loop_step[where child = child and s = s and alpha = alpha and beta = beta, OF row ch]
  let ?s = "s\<lparr>rng := rng t'\<rparr>"
  have IH: "\<exists>c' m g. min_loop child ?s cols v' c0 alpha b' = Inr ((Some c', m), s\<lparr>rng := g\<rparr>)
           \<and> (c' = c0 \<and> m = v' \<or> c' \<in> set cols \<and> (\<exists>w. m = Fin w))" for v' c0 b'
  proof -
    have "\<forall>col\<in>set cols. \<exists>row. get_next_open_row B col = Some row"
      using Cons.prems(1) by simp
    moreover have "\<forall>col\<in>set cols. \<forall>row t a b. get_next_open_row B col = Some row \<longrightarrow>
           board t = set_cell B row col PLAYER_PIECE \<longrightarrow>
           (\<exists>x w t'. child t a b = Inr ((x, Fin w), t'))"
      using Cons.prems(2) by simp
    moreover have "board ?s = B" using Cons.prems(3) by simp
    ultimately show ?thesis
      using Cons.IH[of ?s v' c0 b'] by auto
  qed
  have upd: "Fin w < v \<or> v \<noteq> PosInf \<and> min v (Fin w) = v"
    by (cases v) (auto simp: less_score_def min_def)
  have fin: "Fin w < v \<Longrightarrow> min v (Fin w) = Fin w" by (auto simp: min_def)
  show ?case
  proof (cases "min beta (min v (Fin w)) \<le> alpha")
    case True
    then show ?thesis unfolding step using upd fin by auto
  next
    case False
    then show ?thesis unfolding step
      using upd fin IH[of "min v (Fin w)" "if Fin w < v then col else c" "min beta (min v (Fin w))"]
      by auto
  qed
qed


lemma nonterminal_choice:
  assumes "\<not> is_terminal_node b"
  shows "\<exists>column g'. random_choice g (get_valid_locations b) = Inr (column, g')"
  using assms by (auto simp: is_terminal_node_def random_choice_def)

lemma minimax_leaf:
  assumes "depth = 0 \<or> is_terminal_node (board s)"
  shows "minimax s depth alpha beta mx =
     Inr ((None, Fin (if is_terminal_node (board s)
                      then (if winning_move (board s) AI_PIECE then 100000000000000
                            else if winning_move (board s) PLAYER_PIECE then - 10000000000000
                            else 0)
                      else score_position (board s) AI_PIECE)), s)"
  using assms by (subst minimax.simps) (auto simp: Let_def)

lemma minimax_max_node:
  assumes "\<not> (depth = 0 \<or> is_terminal_node (board s))"
    and "random_choice (rng s) (get_valid_locations (board s)) = Inr (column, g)"
  shows "minimax s depth alpha beta True =
     max_loop (\<lambda>t a b. minimax t (depth - 1) a b False) (s\<lparr>rng := g\<rparr>)
       (get_valid_locations (board s)) NegInf column alpha beta"
  using assms by (subst minimax.simps) (simp add: Let_def)

lemma minimax_min_node:
  assumes "\<not> (depth = 0 \<or> is_terminal_node (board s))"
    and "random_choice (rng s) (get_valid_locations (board s)) = Inr (column, g)"
  shows "minimax s depth alpha beta False =
     min_loop (\<lambda>t a b. minimax t (depth - 1) a b True) (s\<lparr>rng := g\<rparr>)
       (get_valid_locations (board s)) PosInf column alpha beta"
  using assms by (subst minimax.simps) (simp add: Let_def)

lemma minimax_total:
  "\<exists>col w g. minimax s depth alpha beta mx = Inr ((col, Fin w), s\<lparr>rng := g\<rparr>)
     \<and> (col = None \<longleftrightarrow> depth = 0 \<or> is_terminal_node (board s))
     \<and> (\<forall>c. col = Some c \<longrightarrow> c \<in> set (get_valid_locations (board s)))"
proof (induction "empty_cells (board s)" arbitrary: s depth alpha beta mx rule: less_induct)
  case less
  show ?case
  proof (cases "depth = 0 \<or> is_terminal_node (board s)")
    case True
    have "s = s\<lparr>rng := rng s\<rparr>" by simp
    with minimax_leaf[OF True] True show ?thesis by (metis option.distinct(1))
  next
    case nonleaf: False
    let ?B = "board s"
    let ?V = "get_valid_locations ?B"
    from nonleaf have ne: "?V \<noteq> []" by (auto simp: is_terminal_node_def)
    from nonleaf nonterminal_choice obtain column g0 where
      rc: "random_choice (rng s) ?V = Inr (column, g0)" by blast
    have op: "\<forall>col\<in>set ?V. \<exists>row. get_next_open_row ?B col = Some row"
      using valid_column_has_open_row by blast
    have child: "\<forall>col\<in>set ?V. \<forall>row t a b. get_next_open_row ?B col = Some row \<longrightarrow>
           board t = set_cell ?B row col piece \<longrightarrow>
           (\<exists>x w t'. minimax t (depth - 1) a b m' = Inr ((x, Fin w), t'))"
      if "piece \<noteq> 0" for piece m'
    proof (intro ballI allI impI)
      fix col row and t :: state and a b :: score
      assume "col \<in> set ?V" "get_next_open_row ?B col = Some row" "board t = set_cell ?B row col piece"
      then have "empty_cells (board t) < empty_cells (board s)"
        using drop_decreases[of col ?B row piece] that by simp
      from less.hyps[OF this, of "depth - 1" a b m']
      show "\<exists>x w t'. minimax t (depth - 1) a b m' = Inr ((x, Fin w), t')" by blast
    qed
    have bs: "board (s\<lparr>rng := g0\<rparr>) = ?B" by simp
    show ?thesis
    proof (cases mx)
      case True
      then have eq: "minimax s depth alpha beta mx =
          max_loop (\<lambda>t a b. minimax t (depth - 1) a b False) (s\<lparr>rng := g0\<rparr>) ?V NegInf column alpha beta"
        using minimax_max_node[OF nonleaf rc] by simp
      from max_loop_total[OF op child[of AI_PIECE False] bs, of NegInf column alpha beta]
      show ?thesis
        unfolding eq using ne nonleaf by auto
    next
      case False
      then have eq: "minimax s depth alpha beta mx =
          min_loop (\<lambda>t a b. minimax t (depth - 1) a b True) (s\<lparr>rng := g0\<rparr>) ?V PosInf column alpha beta"
        using minimax_min_node[OF nonleaf rc] by simp
      from min_loop_total[OF op child[of PLAYER_PIECE True] bs, of PosInf column alpha beta]
      show ?thesis
        unfolding eq using ne nonleaf by auto
    qed
  qed
qed

text \<open>
  C2. For every grid, every depth and every state of the random generator,
  \<^verbatim>\<open>get_best_move\<close> returns, and the grid after the call is the grid before it; the same
  holds of \<^verbatim>\<open>minimax\<close> for every window and either player.
\<close>

theorem search_leaves_board:
  "(\<exists>col s'. get_best_move s depth = Inr (col, s') \<and> board s' = board s)
   \<and> (\<exists>res s'. minimax s depth alpha beta mx = Inr (res, s') \<and> board s' = board s)"
proof -
  obtain col w g where "minimax s depth NegInf PosInf True = Inr ((col, Fin w), s\<lparr>rng := g\<rparr>)"
    using minimax_total[of s depth NegInf PosInf True] by blast
  then have "get_best_move s depth = Inr (col, s\<lparr>rng := g\<rparr>)"
    by (simp add: get_best_move_def)
  moreover obtain col' w' g' where
    "minimax s depth alpha beta mx = Inr ((col', Fin w'), s\<lparr>rng := g'\<rparr>)"
    using minimax_total[of s depth alpha beta mx] by blast
  ultimately show ?thesis by simp
qed

theorem search_leaves_board_witness:
  "\<exists>col s'. get_best_move \<lparr>board = set_cell create_board 5 3 PLAYER_PIECE, rng = id\<rparr> 5 = Inr (col, s')
     \<and> board s' = set_cell create_board 5 3 PLAYER_PIECE"
  using search_leaves_board[of "\<lparr>board = set_cell create_board 5 3 PLAYER_PIECE, rng = id\<rparr>" 5]
  by simp

text \<open>
  C3, as the claim states it, fails on a terminal grid where both tokens have four in a
  row: the human token has one, and the score is the sentinel of the AI win.
\<close>

theorem terminal_score_counterexample:
  "is_terminal_node double_win_board
   \<and> winning_move double_win_board PLAYER_PIECE
   \<and> minimax \<lparr>board = double_win_board, rng = id\<rparr> 5 NegInf PosInf True
       = Inr ((None, Fin 100000000000000), \<lparr>board = double_win_board, rng = id\<rparr>)
   \<and> Fin 100000000000000 \<noteq> Fin (- 10000000000000)"
proof -
  have w: "winning_move double_win_board AI_PIECE" "winning_move double_win_board PLAYER_PIECE"
    by code_simp+
  then have t: "is_terminal_node double_win_board"
    by (simp add: is_terminal_node_def)
  show ?thesis
    using w t minimax_leaf[of 5 "\<lparr>board = double_win_board, rng = id\<rparr>" NegInf PosInf True]
    by simp
qed

text \<open>
  C3, amended. On every terminal grid, for every depth, window and player,
  \<^verbatim>\<open>minimax\<close> returns no column and a score that is the sentinel \<open>10^14\<close> if the AI
  token has four in a row, the sentinel \<open>-10^13\<close> if the human token has four in a row and
  the AI token has not, and 0 otherwise (no win and no valid column); the state is the one
  before the call, and the heuristic \<^verbatim>\<open>score_position\<close> does not enter the result.
\<close>

theorem minimax_terminal:
  assumes "is_terminal_node (board s)"
  shows "minimax s depth alpha beta mx =
     Inr ((None, Fin (if winning_move (board s) AI_PIECE then 100000000000000
                      else if winning_move (board s) PLAYER_PIECE then - 10000000000000
                      else 0)), s)
     \<and> (\<not> winning_move (board s) AI_PIECE \<and> \<not> winning_move (board s) PLAYER_PIECE \<longrightarrow>
         get_valid_locations (board s) = [])"
  using assms minimax_leaf[of depth s alpha beta mx] by (auto simp: is_terminal_node_def)

theorem minimax_terminal_witness:
  "minimax \<lparr>board = (\<lambda>r c. if c = 2 \<and> 2 \<le> r then PLAYER_PIECE else EMPTY), rng = id\<rparr>
      4 NegInf PosInf True
   = Inr ((None, Fin (- 10000000000000)),
          \<lparr>board = (\<lambda>r c. if c = 2 \<and> 2 \<le> r then PLAYER_PIECE else EMPTY), rng = id\<rparr>)"
proof -
  let ?b = "\<lambda>r c::nat. if c = 2 \<and> 2 \<le> r then PLAYER_PIECE else EMPTY"
  have w: "winning_move ?b PLAYER_PIECE" "\<not> winning_move ?b AI_PIECE"
    by code_simp+
  then have "is_terminal_node (board \<lparr>board = ?b, rng = id\<rparr>)"
    by (simp add: is_terminal_node_def)
  from minimax_terminal[OF this, of 4 NegInf PosInf True] w show ?thesis
    by simp
qed

text \<open>
  C10. \<^verbatim>\<open>minimax\<close> returns, for every depth, window and player; the column it returns
  is \<^verbatim>\<open>None\<close> exactly when the depth is 0 or the grid is terminal, and in every other
  case it is one of \<^verbatim>\<open>get_valid_locations()\<close> of the grid: a column of the grid whose
  top cell is empty. So \<^verbatim>\<open>get_best_move\<close> on a playable position returns such a column.
\<close>

theorem minimax_column:
  "(\<exists>col w s'. minimax s depth alpha beta mx = Inr ((col, w), s')
      \<and> (col = None \<longleftrightarrow> depth = 0 \<or> is_terminal_node (board s))
      \<and> (\<forall>c. col = Some c \<longrightarrow>
            c \<in> set (get_valid_locations (board s)) \<and> c < COLUMN_COUNT \<and> is_valid_location (board s) c))
   \<and> (depth \<noteq> 0 \<and> \<not> is_terminal_node (board s) \<longrightarrow>
        (\<exists>c s'. get_best_move s depth = Inr (Some c, s')
           \<and> c \<in> set (get_valid_locations (board s)) \<and> c < COLUMN_COUNT \<and> is_valid_location (board s) c))"
proof -
  have v: "c < COLUMN_COUNT \<and> is_valid_location (board s) c"
    if "c \<in> set (get_valid_locations (board s))" for c
    using that by (simp add: set_get_valid_locations is_valid_location_def)
  obtain col w g where m: "minimax s depth alpha beta mx = Inr ((col, Fin w), s\<lparr>rng := g\<rparr>)"
      "col = None \<longleftrightarrow> depth = 0 \<or> is_terminal_node (board s)"
      "\<forall>c. col = Some c \<longrightarrow> c \<in> set (get_valid_locations (board s))"
    using minimax_total[of s depth alpha beta mx] by blast
  obtain col' w' g' where m': "minimax s depth NegInf PosInf True = Inr ((col', Fin w'), s\<lparr>rng := g'\<rparr>)"
      "col' = None \<longleftrightarrow> depth = 0 \<or> is_terminal_node (board s)"
      "\<forall>c. col' = Some c \<longrightarrow> c \<in> set (get_valid_locations (board s))"
    using minimax_total[of s depth NegInf PosInf True] by blast
  have "\<exists>c s'. get_best_move s depth = Inr (Some c, s')
           \<and> c \<in> set (get_valid_locations (board s)) \<and> c < COLUMN_COUNT \<and> is_valid_location (board s) c"
    if "depth \<noteq> 0" "\<not> is_terminal_node (board s)"
  proof -
    from that m'(2) obtain c where "col' = Some c" by auto
    with m'(1,3) v show ?thesis by (auto simp: get_best_move_def)
  qed
  with m v show ?thesis by blast
qed

theorem minimax_column_witness:
  "\<exists>c s'. get_best_move \<lparr>board = create_board, rng = id\<rparr> 5 = Inr (Some c, s') \<and> c < COLUMN_COUNT
     \<and> is_valid_location create_board c"
proof -
  have "\<not> is_terminal_node create_board" by code_simp
  then show ?thesis
    using minimax_column[of "\<lparr>board = create_board, rng = id\<rparr>" 5 NegInf PosInf True] by auto
qed

section \<open>Pruning\<close>

lemma soft_bound_refl: "soft_bound a b v v"
  by (simp add: soft_bound_def)

lemma soft_bound_max_cut:
  fixes a b v w x r :: score
  assumes "soft_bound a b x w" "v \<le> a" "a < b" "b \<le> max a (max v w)"
  shows "soft_bound a b (max (max v x) r) (max v w)"
proof -
  from assms(2-4) have "b \<le> w" by (auto simp: max_def split: if_splits)
  with assms(1) have "w \<le> x" by (simp add: soft_bound_def)
  have "max v w = w" using \<open>b \<le> w\<close> assms(2,3) by (auto simp: max_def)
  moreover have "w \<le> max (max v x) r" using \<open>w \<le> x\<close> by (auto simp: max_def)
  ultimately show ?thesis using \<open>b \<le> w\<close> assms(3) by (auto simp: soft_bound_def)
qed

lemma soft_bound_max_step:
  fixes a b v w x r m :: score
  assumes "soft_bound a b x w" "v \<le> a" "a < b" "\<not> b \<le> max a (max v w)"
    and "soft_bound (max a (max v w)) b (max (max v w) r) m"
  shows "soft_bound a b (max (max v x) r) m"
proof (cases "w \<le> a")
  case True
  then have A: "max a (max v w) = a" using assms(2) by (auto simp: max_def)
  have x: "x \<le> w" using assms(1) True by (simp add: soft_bound_def)
  show ?thesis
  proof (cases "r \<le> a")
    case True
    then have "max (max v w) r \<le> a" "max (max v x) r \<le> max (max v w) r"
      using \<open>w \<le> a\<close> assms(2) x by (auto simp: max_def)
    moreover have "soft_bound a b Q m" if "P \<le> a" "Q \<le> P" "soft_bound a b P m" for P Q
      using that assms(3) unfolding soft_bound_def by auto
    ultimately show ?thesis using assms(5) unfolding A by blast
  next
    case False
    then have "max (max v w) r = r" "max (max v x) r = r"
      using \<open>w \<le> a\<close> assms(2) x by (auto simp: max_def)
    then show ?thesis using assms(5) unfolding A by simp
  qed
next
  case False
  then have aw: "a < w" by simp
  moreover have "w < b" using assms(4) by (auto simp: max_def split: if_splits)
  ultimately have wx: "w = x" using assms(1) by (simp add: soft_bound_def)
  have A: "max a (max v w) = w" "max v w = w" "max v x = w"
    using aw assms(2) wx by (auto simp: max_def)
  have "w \<le> max w r" by simp
  then show ?thesis using assms(5) aw unfolding A soft_bound_def by auto
qed

lemma soft_bound_min_cut:
  fixes a b v w x r :: score
  assumes "soft_bound a b x w" "b \<le> v" "a < b" "min b (min v w) \<le> a"
  shows "soft_bound a b (min (min v x) r) (min v w)"
proof -
  from assms(2-4) have "w \<le> a" by (auto simp: min_def split: if_splits)
  with assms(1) have "x \<le> w" by (simp add: soft_bound_def)
  have "min v w = w" using \<open>w \<le> a\<close> assms(2,3) by (auto simp: min_def)
  moreover have "min (min v x) r \<le> w" using \<open>x \<le> w\<close> by (auto simp: min_def)
  ultimately show ?thesis using \<open>w \<le> a\<close> assms(3) by (auto simp: soft_bound_def)
qed

lemma soft_bound_min_step:
  fixes a b v w x r m :: score
  assumes "soft_bound a b x w" "b \<le> v" "a < b" "\<not> min b (min v w) \<le> a"
    and "soft_bound a (min b (min v w)) (min (min v w) r) m"
  shows "soft_bound a b (min (min v x) r) m"
proof (cases "b \<le> w")
  case True
  then have B: "min b (min v w) = b" using assms(2) by (auto simp: min_def)
  have x: "w \<le> x" using assms(1) True by (simp add: soft_bound_def)
  show ?thesis
  proof (cases "b \<le> r")
    case True
    then have "b \<le> min (min v w) r" "min (min v w) r \<le> min (min v x) r"
      using \<open>b \<le> w\<close> assms(2) x by (auto simp: min_def)
    moreover have "soft_bound a b Q m" if "b \<le> P" "P \<le> Q" "soft_bound a b P m" for P Q
      using that assms(3) unfolding soft_bound_def by auto
    ultimately show ?thesis using assms(5) unfolding B by blast
  next
    case False
    then have "min (min v w) r = r" "min (min v x) r = r"
      using \<open>b \<le> w\<close> assms(2) x by (auto simp: min_def)
    then show ?thesis using assms(5) unfolding B by simp
  qed
next
  case False
  then have wb: "w < b" by simp
  moreover have "a < w" using assms(4) by (auto simp: min_def split: if_splits)
  ultimately have wx: "w = x" using assms(1) by (simp add: soft_bound_def)
  have B: "min b (min v w) = w" "min v w = w" "min v x = w"
    using wb assms(2) wx by (auto simp: min_def)
  have "min w r \<le> w" by simp
  then show ?thesis using assms(5) wb unfolding B soft_bound_def by auto
qed


lemma full_max_loop_value:
  "snd (full_max_loop V cols v c) = fold (\<lambda>col acc. max acc (V col)) cols v"
  by (induction cols arbitrary: v c) (auto simp: Let_def max_def)

lemma full_min_loop_value:
  "snd (full_min_loop V cols v c) = fold (\<lambda>col acc. min acc (V col)) cols v"
  by (induction cols arbitrary: v c) (auto simp: Let_def min_def)

lemma NegInf_least [simp]: "NegInf \<le> (x::score)"
  by simp

lemma PosInf_greatest [simp]: "(x::score) \<le> PosInf"
  by (cases x) simp_all

lemma fold_max_from:
  "fold (\<lambda>col acc. max acc (V col)) cols (v::score)
     = max v (fold (\<lambda>col acc. max acc (V col)) cols NegInf)"
proof (induction cols arbitrary: v)
  case Nil
  show ?case by (simp add: max.absorb1)
next
  case (Cons col cols)
  have "max NegInf (V col) = V col" by (simp add: max.absorb2)
  then show ?case
    using Cons.IH[of "max v (V col)"] Cons.IH[of "V col"] by (simp add: max.assoc)
qed

lemma fold_min_from:
  "fold (\<lambda>col acc. min acc (V col)) cols (v::score)
     = min v (fold (\<lambda>col acc. min acc (V col)) cols PosInf)"
proof (induction cols arbitrary: v)
  case Nil
  show ?case by (simp add: min.absorb1)
next
  case (Cons col cols)
  have "min PosInf (V col) = V col" by (simp add: min.absorb2)
  then show ?case
    using Cons.IH[of "min v (V col)"] Cons.IH[of "V col"] by (simp add: min.assoc)
qed

lemma full_max_loop_Cons_value:
  "snd (full_max_loop V (col # cols) v c)
     = max (max v (V col)) (snd (full_max_loop V cols NegInf c'))"
  unfolding full_max_loop_value using fold_max_from[of V cols "max v (V col)"] by simp

lemma full_max_loop_from_value:
  "snd (full_max_loop V cols v c) = max v (snd (full_max_loop V cols NegInf c'))"
  unfolding full_max_loop_value using fold_max_from[of V cols v] by simp

lemma full_min_loop_Cons_value:
  "snd (full_min_loop V (col # cols) v c)
     = min (min v (V col)) (snd (full_min_loop V cols PosInf c'))"
  unfolding full_min_loop_value using fold_min_from[of V cols "min v (V col)"] by simp

lemma full_min_loop_from_value:
  "snd (full_min_loop V cols v c) = min v (snd (full_min_loop V cols PosInf c'))"
  unfolding full_min_loop_value using fold_min_from[of V cols v] by simp

lemma max_loop_soft:
  assumes "\<forall>col\<in>set cols. \<exists>row. get_next_open_row B col = Some row"
    and "\<forall>col\<in>set cols. \<forall>row t a b. get_next_open_row B col = Some row \<longrightarrow>
           board t = set_cell B row col AI_PIECE \<longrightarrow> a < b \<longrightarrow>
           (\<exists>x w t'. child t a b = Inr ((x, w), t') \<and> soft_bound a b (V col) w)"
    and "board s = B" "v \<le> alpha" "alpha < beta"
  shows "\<exists>c' m s'. max_loop child s cols v c alpha beta = Inr ((c', m), s')
           \<and> soft_bound alpha beta (snd (full_max_loop V cols v c0)) m"
  using assms
proof (induction cols arbitrary: s v c alpha)
  case Nil
  show ?case by (simp add: soft_bound_refl)
next
  case (Cons col cols)
  from Cons.prems(1,3) obtain row where row: "get_next_open_row (board s) col = Some row"
    by auto
  let ?t = "s\<lparr>board := set_cell (board s) row col AI_PIECE\<rparr>"
  from Cons.prems(2) have "\<forall>row t a b. get_next_open_row B col = Some row \<longrightarrow>
           board t = set_cell B row col AI_PIECE \<longrightarrow> a < b \<longrightarrow>
           (\<exists>x w t'. child t a b = Inr ((x, w), t') \<and> soft_bound a b (V col) w)"
    by simp
  from this[rule_format, of row ?t alpha beta] row Cons.prems(3,5) obtain x w t' where
    ch: "child ?t alpha beta = Inr ((x, w), t')" and sb: "soft_bound alpha beta (V col) w"
    by auto
  note step = max_loop_step[where child = child and s = s and alpha = alpha and beta = beta, OF row ch]
  let ?r = "snd (full_max_loop V cols NegInf c0)"
  have full: "snd (full_max_loop V (col # cols) v c0) = max (max v (V col)) ?r"
    by (rule full_max_loop_Cons_value)
  show ?case
  proof (cases "beta \<le> max alpha (max v w)")
    case True
    from soft_bound_max_cut[OF sb Cons.prems(4,5) True, of ?r]
    show ?thesis unfolding step full using True by simp
  next
    case False
    let ?s = "s\<lparr>rng := rng t'\<rparr>"
    have "\<forall>col\<in>set cols. \<exists>row. get_next_open_row B col = Some row"
      using Cons.prems(1) by simp
    moreover have "\<forall>col\<in>set cols. \<forall>row t a b. get_next_open_row B col = Some row \<longrightarrow>
           board t = set_cell B row col AI_PIECE \<longrightarrow> a < b \<longrightarrow>
           (\<exists>x w t'. child t a b = Inr ((x, w), t') \<and> soft_bound a b (V col) w)"
      using Cons.prems(2) by simp
    moreover have "board ?s = B" using Cons.prems(3) by simp
    moreover have "max v w \<le> max alpha (max v w)" by (rule max.cobounded2)
    moreover have "max alpha (max v w) < beta" using False by (simp only: not_le)
    ultimately obtain c' m s' where
      res: "max_loop child ?s cols (max v w) (if v < w then col else c) (max alpha (max v w)) beta
              = Inr ((c', m), s')"
      and ih: "soft_bound (max alpha (max v w)) beta (snd (full_max_loop V cols (max v w) c0)) m"
      using Cons.IH[of ?s "max v w" "max alpha (max v w)" "if v < w then col else c"] by blast
    have "snd (full_max_loop V cols (max v w) c0) = max (max v w) ?r"
      by (rule full_max_loop_from_value)
    with ih have "soft_bound (max alpha (max v w)) beta (max (max v w) ?r) m" by simp
    from soft_bound_max_step[OF sb Cons.prems(4,5) False this]
    show ?thesis unfolding step full using False res by simp
  qed
qed

lemma min_loop_soft:
  assumes "\<forall>col\<in>set cols. \<exists>row. get_next_open_row B col = Some row"
    and "\<forall>col\<in>set cols. \<forall>row t a b. get_next_open_row B col = Some row \<longrightarrow>
           board t = set_cell B row col PLAYER_PIECE \<longrightarrow> a < b \<longrightarrow>
           (\<exists>x w t'. child t a b = Inr ((x, w), t') \<and> soft_bound a b (V col) w)"
    and "board s = B" "beta \<le> v" "alpha < beta"
  shows "\<exists>c' m s'. min_loop child s cols v c alpha beta = Inr ((c', m), s')
           \<and> soft_bound alpha beta (snd (full_min_loop V cols v c0)) m"
  using assms
proof (induction cols arbitrary: s v c beta)
  case Nil
  show ?case by (simp add: soft_bound_refl)
next
  case (Cons col cols)
  from Cons.prems(1,3) obtain row where row: "get_next_open_row (board s) col = Some row"
    by auto
  let ?t = "s\<lparr>board := set_cell (board s) row col PLAYER_PIECE\<rparr>"
  from Cons.prems(2) have "\<forall>row t a b. get_next_open_row B col = Some row \<longrightarrow>
           board t = set_cell B row col PLAYER_PIECE \<longrightarrow> a < b \<longrightarrow>
           (\<exists>x w t'. child t a b = Inr ((x, w), t') \<and> soft_bound a b (V col) w)"
    by simp
  from this[rule_format, of row ?t alpha beta] row Cons.prems(3,5) obtain x w t' where
    ch: "child ?t alpha beta = Inr ((x, w), t')" and sb: "soft_bound alpha beta (V col) w"
    by auto
  note step = min_loop_step[where child = child and s = s and alpha = alpha and beta = beta, OF row ch]
  let ?r = "snd (full_min_loop V cols PosInf c0)"
  have full: "snd (full_min_loop V (col # cols) v c0) = min (min v (V col)) ?r"
    by (rule full_min_loop_Cons_value)
  show ?case
  proof (cases "min beta (min v w) \<le> alpha")
    case True
    from soft_bound_min_cut[OF sb Cons.prems(4,5) True, of ?r]
    show ?thesis unfolding step full using True by simp
  next
    case False
    let ?s = "s\<lparr>rng := rng t'\<rparr>"
    have "\<forall>col\<in>set cols. \<exists>row. get_next_open_row B col = Some row"
      using Cons.prems(1) by simp
    moreover have "\<forall>col\<in>set cols. \<forall>row t a b. get_next_open_row B col = Some row \<longrightarrow>
           board t = set_cell B row col PLAYER_PIECE \<longrightarrow> a < b \<longrightarrow>
           (\<exists>x w t'. child t a b = Inr ((x, w), t') \<and> soft_bound a b (V col) w)"
      using Cons.prems(2) by simp
    moreover have "board ?s = B" using Cons.prems(3) by simp
    moreover have "min beta (min v w) \<le> min v w" by (rule min.cobounded2)
    moreover have "alpha < min beta (min v w)" using False by (simp only: not_le)
    ultimately obtain c' m s' where
      res: "min_loop child ?s cols (min v w) (if w < v then col else c) alpha (min beta (min v w))
              = Inr ((c', m), s')"
      and ih: "soft_bound alpha (min beta (min v w)) (snd (full_min_loop V cols (min v w) c0)) m"
      using Cons.IH[of ?s "min beta (min v w)" "min v w" "if w < v then col else c"] by blast
    have "snd (full_min_loop V cols (min v w) c0) = min (min v w) ?r"
      by (rule full_min_loop_from_value)
    with ih have "soft_bound alpha (min beta (min v w)) (min (min v w) ?r) m" by simp
    from soft_bound_min_step[OF sb Cons.prems(4,5) False this]
    show ?thesis unfolding step full using False res by simp
  qed
qed

lemma max_loop_exact:
  assumes "\<forall>col\<in>set cols. \<exists>row. get_next_open_row B col = Some row"
    and "\<forall>col\<in>set cols. \<forall>row t a. get_next_open_row B col = Some row \<longrightarrow>
           board t = set_cell B row col AI_PIECE \<longrightarrow> a < PosInf \<longrightarrow>
           (\<exists>x w t'. child t a PosInf = Inr ((x, Fin w), t') \<and> soft_bound a PosInf (V col) (Fin w))"
    and "board s = B" "v < PosInf" "v = NegInf \<and> cols \<noteq> [] \<or> c = c0"
  shows "\<exists>g. max_loop child s cols v c v PosInf = Inr (full_max_loop V cols v c0, s\<lparr>rng := g\<rparr>)"
  using assms
proof (induction cols arbitrary: s v c c0)
  case Nil
  have "s = s\<lparr>rng := rng s\<rparr>" by simp
  with Nil.prems(5) show ?case by (metis full_max_loop.simps(1) max_loop.simps(1))
next
  case (Cons col cols)
  from Cons.prems(1,3) obtain row where row: "get_next_open_row (board s) col = Some row"
    by auto
  let ?t = "s\<lparr>board := set_cell (board s) row col AI_PIECE\<rparr>"
  from Cons.prems(2) have "\<forall>row t a. get_next_open_row B col = Some row \<longrightarrow>
           board t = set_cell B row col AI_PIECE \<longrightarrow> a < PosInf \<longrightarrow>
           (\<exists>x w t'. child t a PosInf = Inr ((x, Fin w), t') \<and> soft_bound a PosInf (V col) (Fin w))"
    by simp
  from this[rule_format, of row ?t v] row Cons.prems(3,4) obtain x w t' where
    ch: "child ?t v PosInf = Inr ((x, Fin w), t')" and sb: "soft_bound v PosInf (V col) (Fin w)"
    by auto
  note step = max_loop_step[where child = child and s = s and alpha = v and beta = PosInf, OF row ch]
  let ?s = "s\<lparr>rng := rng t'\<rparr>"
  let ?v = "max v (Fin w)"
  have nocut: "\<not> PosInf \<le> max v (max v (Fin w))"
    using Cons.prems(4) by (auto simp: max_def less_score_def)
  have mm: "max v (max v (Fin w)) = ?v" by simp
  have vlt: "?v < PosInf" using Cons.prems(4) by (auto simp: max_def less_score_def)
  have IH: "\<exists>g. max_loop child ?s cols ?v c' ?v PosInf = Inr (full_max_loop V cols ?v c', s\<lparr>rng := g\<rparr>)"
    for c'
  proof -
    have "\<forall>col\<in>set cols. \<exists>row. get_next_open_row B col = Some row"
      using Cons.prems(1) by simp
    moreover have "\<forall>col\<in>set cols. \<forall>row t a. get_next_open_row B col = Some row \<longrightarrow>
           board t = set_cell B row col AI_PIECE \<longrightarrow> a < PosInf \<longrightarrow>
           (\<exists>x w t'. child t a PosInf = Inr ((x, Fin w), t') \<and> soft_bound a PosInf (V col) (Fin w))"
      using Cons.prems(2) by simp
    moreover have "board ?s = B" using Cons.prems(3) by simp
    ultimately show ?thesis
      using Cons.IH[of ?s ?v c' c'] vlt by auto
  qed
  show ?case
  proof (cases "v < Fin w")
    case True
    then have "V col = Fin w" using sb by (auto simp: soft_bound_def less_score_def)
    then have "full_max_loop V (col # cols) v c0 = full_max_loop V cols (Fin w) col"
      using True by (simp add: Let_def)
    moreover have "?v = Fin w" using True by (auto simp: max_def)
    ultimately show ?thesis
      unfolding step mm using nocut True IH[of col] by simp
  next
    case False
    then have le: "Fin w \<le> v" by simp
    then have "V col \<le> v" using sb by (auto simp: soft_bound_def)
    then have "full_max_loop V (col # cols) v c0 = full_max_loop V cols v c0"
      by (auto simp: Let_def)
    moreover have "?v = v" using le by (auto simp: max_def)
    moreover have "c = c0" using Cons.prems(5) le by auto
    ultimately show ?thesis
      unfolding step mm using nocut False IH[of c0] by simp
  qed
qed

lemma min_loop_exact:
  assumes "\<forall>col\<in>set cols. \<exists>row. get_next_open_row B col = Some row"
    and "\<forall>col\<in>set cols. \<forall>row t a. get_next_open_row B col = Some row \<longrightarrow>
           board t = set_cell B row col PLAYER_PIECE \<longrightarrow> NegInf < a \<longrightarrow>
           (\<exists>x w t'. child t NegInf a = Inr ((x, Fin w), t') \<and> soft_bound NegInf a (V col) (Fin w))"
    and "board s = B" "NegInf < v" "v = PosInf \<and> cols \<noteq> [] \<or> c = c0"
  shows "\<exists>g. min_loop child s cols v c NegInf v = Inr (full_min_loop V cols v c0, s\<lparr>rng := g\<rparr>)"
  using assms
proof (induction cols arbitrary: s v c c0)
  case Nil
  have "s = s\<lparr>rng := rng s\<rparr>" by simp
  with Nil.prems(5) show ?case by (metis full_min_loop.simps(1) min_loop.simps(1))
next
  case (Cons col cols)
  from Cons.prems(1,3) obtain row where row: "get_next_open_row (board s) col = Some row"
    by auto
  let ?t = "s\<lparr>board := set_cell (board s) row col PLAYER_PIECE\<rparr>"
  from Cons.prems(2) have "\<forall>row t a. get_next_open_row B col = Some row \<longrightarrow>
           board t = set_cell B row col PLAYER_PIECE \<longrightarrow> NegInf < a \<longrightarrow>
           (\<exists>x w t'. child t NegInf a = Inr ((x, Fin w), t') \<and> soft_bound NegInf a (V col) (Fin w))"
    by simp
  from this[rule_format, of row ?t v] row Cons.prems(3,4) obtain x w t' where
    ch: "child ?t NegInf v = Inr ((x, Fin w), t')" and sb: "soft_bound NegInf v (V col) (Fin w)"
    by auto
  note step = min_loop_step[where child = child and s = s and alpha = NegInf and beta = v, OF row ch]
  let ?s = "s\<lparr>rng := rng t'\<rparr>"
  let ?v = "min v (Fin w)"
  have nocut: "\<not> min v (min v (Fin w)) \<le> NegInf"
    using Cons.prems(4) by (auto simp: min_def less_score_def)
  have mm: "min v (min v (Fin w)) = ?v" by simp
  have vlt: "NegInf < ?v" using Cons.prems(4) by (auto simp: min_def less_score_def)
  have IH: "\<exists>g. min_loop child ?s cols ?v c' NegInf ?v = Inr (full_min_loop V cols ?v c', s\<lparr>rng := g\<rparr>)"
    for c'
  proof -
    have "\<forall>col\<in>set cols. \<exists>row. get_next_open_row B col = Some row"
      using Cons.prems(1) by simp
    moreover have "\<forall>col\<in>set cols. \<forall>row t a. get_next_open_row B col = Some row \<longrightarrow>
           board t = set_cell B row col PLAYER_PIECE \<longrightarrow> NegInf < a \<longrightarrow>
           (\<exists>x w t'. child t NegInf a = Inr ((x, Fin w), t') \<and> soft_bound NegInf a (V col) (Fin w))"
      using Cons.prems(2) by simp
    moreover have "board ?s = B" using Cons.prems(3) by simp
    ultimately show ?thesis
      using Cons.IH[of ?s ?v c' c'] vlt by auto
  qed
  show ?case
  proof (cases "Fin w < v")
    case True
    then have "V col = Fin w" using sb by (auto simp: soft_bound_def less_score_def)
    then have "full_min_loop V (col # cols) v c0 = full_min_loop V cols (Fin w) col"
      using True by (simp add: Let_def)
    moreover have "?v = Fin w" using True by (auto simp: min_def)
    ultimately show ?thesis
      unfolding step mm using nocut True IH[of col] by simp
  next
    case False
    then have le: "v \<le> Fin w" by simp
    then have "v \<le> V col" using sb by (auto simp: soft_bound_def)
    then have "full_min_loop V (col # cols) v c0 = full_min_loop V cols v c0"
      by (auto simp: Let_def)
    moreover have "?v = v" using le by (auto simp: min_def)
    moreover have "c = c0" using Cons.prems(5) le by auto
    ultimately show ?thesis
      unfolding step mm using nocut False IH[of c0] by simp
  qed
qed

lemma full_minimax_leaf:
  assumes "depth = 0 \<or> is_terminal_node b"
  shows "full_minimax pick b depth mx =
     (None, Fin (if is_terminal_node b
                 then (if winning_move b AI_PIECE then 100000000000000
                       else if winning_move b PLAYER_PIECE then - 10000000000000
                       else 0)
                 else score_position b AI_PIECE))"
  using assms by (subst full_minimax.simps) (auto simp: Let_def)

lemma full_minimax_max_node:
  assumes "\<not> (depth = 0 \<or> is_terminal_node b)"
  shows "full_minimax pick b depth True =
     full_max_loop (\<lambda>col. snd (full_minimax pick (drop_token b col AI_PIECE) (depth - 1) False))
       (get_valid_locations b) NegInf (pick (get_valid_locations b))"
  using assms by (subst full_minimax.simps) (simp add: Let_def)

lemma full_minimax_min_node:
  assumes "\<not> (depth = 0 \<or> is_terminal_node b)"
  shows "full_minimax pick b depth False =
     full_min_loop (\<lambda>col. snd (full_minimax pick (drop_token b col PLAYER_PIECE) (depth - 1) True))
       (get_valid_locations b) PosInf (pick (get_valid_locations b))"
  using assms by (subst full_minimax.simps) (simp add: Let_def)

lemma minimax_soft:
  "alpha < beta \<Longrightarrow>
   \<exists>col m s'. minimax s depth alpha beta mx = Inr ((col, m), s')
     \<and> soft_bound alpha beta (snd (full_minimax pick (board s) depth mx)) m"
proof (induction "empty_cells (board s)" arbitrary: s depth alpha beta mx rule: less_induct)
  case less
  show ?case
  proof (cases "depth = 0 \<or> is_terminal_node (board s)")
    case True
    show ?thesis
      unfolding minimax_leaf[OF True] full_minimax_leaf[OF True] by (simp add: soft_bound_refl)
  next
    case nonleaf: False
    let ?B = "board s"
    let ?V = "get_valid_locations ?B"
    from nonleaf nonterminal_choice obtain column g0 where
      rc: "random_choice (rng s) ?V = Inr (column, g0)" by blast
    have op: "\<forall>col\<in>set ?V. \<exists>row. get_next_open_row ?B col = Some row"
      using valid_column_has_open_row by blast
    have child: "\<forall>col\<in>set ?V. \<forall>row t a b. get_next_open_row ?B col = Some row \<longrightarrow>
           board t = set_cell ?B row col piece \<longrightarrow> a < b \<longrightarrow>
           (\<exists>x w t'. minimax t (depth - 1) a b m' = Inr ((x, w), t')
              \<and> soft_bound a b (snd (full_minimax pick (drop_token ?B col piece) (depth - 1) m')) w)"
      if "piece \<noteq> 0" for piece m'
    proof (intro ballI allI impI)
      fix col row and t :: state and a b :: score
      assume a: "col \<in> set ?V" "get_next_open_row ?B col = Some row"
        "board t = set_cell ?B row col piece" "a < b"
      then have "empty_cells (board t) < empty_cells (board s)"
        using drop_decreases[of col ?B row piece] that by simp
      from less.hyps[OF this a(4), of "depth - 1" m']
      show "\<exists>x w t'. minimax t (depth - 1) a b m' = Inr ((x, w), t')
              \<and> soft_bound a b (snd (full_minimax pick (drop_token ?B col piece) (depth - 1) m')) w"
        using a(2,3) by (simp add: drop_token_valid)
    qed
    have bs: "board (s\<lparr>rng := g0\<rparr>) = ?B" by simp
    show ?thesis
    proof (cases mx)
      case True
      have "NegInf \<le> alpha" by simp
      from max_loop_soft[OF op child[of AI_PIECE False] bs this less.prems, of column "pick ?V"]
      show ?thesis
        using True minimax_max_node[OF nonleaf rc, of alpha beta] full_minimax_max_node[OF nonleaf, of pick]
        by simp
    next
      case False
      have "beta \<le> PosInf" by simp
      from min_loop_soft[OF op child[of PLAYER_PIECE True] bs this less.prems, of column "pick ?V"]
      show ?thesis
        using False minimax_min_node[OF nonleaf rc, of alpha beta] full_minimax_min_node[OF nonleaf, of pick]
        by simp
    qed
  qed
qed

lemma minimax_root:
  "\<exists>g. minimax s depth NegInf PosInf mx = Inr (full_minimax pick (board s) depth mx, s\<lparr>rng := g\<rparr>)"
proof (cases "depth = 0 \<or> is_terminal_node (board s)")
  case True
  show ?thesis
    unfolding minimax_leaf[OF True] full_minimax_leaf[OF True]
    by (rule exI[of _ "rng s"]) simp
next
  case nonleaf: False
  let ?B = "board s"
  let ?V = "get_valid_locations ?B"
  from nonleaf have ne: "?V \<noteq> []" by (auto simp: is_terminal_node_def)
  from nonleaf nonterminal_choice obtain column g0 where
    rc: "random_choice (rng s) ?V = Inr (column, g0)" by blast
  have op: "\<forall>col\<in>set ?V. \<exists>row. get_next_open_row ?B col = Some row"
    using valid_column_has_open_row by blast
  have child: "\<exists>x w t'. minimax t (depth - 1) a b m' = Inr ((x, Fin w), t')
       \<and> soft_bound a b (snd (full_minimax pick (drop_token ?B col piece) (depth - 1) m')) (Fin w)"
    if h: "get_next_open_row ?B col = Some row" "board t = set_cell ?B row col piece" "a < b"
    for col row t a b piece m'
  proof -
    obtain x w g where "minimax t (depth - 1) a b m' = Inr ((x, Fin w), t\<lparr>rng := g\<rparr>)"
      using minimax_total[of t "depth - 1" a b m'] by blast
    moreover obtain x' w' t' where "minimax t (depth - 1) a b m' = Inr ((x', w'), t')"
      "soft_bound a b (snd (full_minimax pick (board t) (depth - 1) m')) w'"
      using minimax_soft[OF h(3), of t "depth - 1" m' pick] by blast
    ultimately show ?thesis using h(1,2) by (auto simp: drop_token_valid)
  qed
  have bs: "board (s\<lparr>rng := g0\<rparr>) = ?B" by simp
  show ?thesis
  proof (cases mx)
    case True
    have "\<exists>g. max_loop (\<lambda>t a b. minimax t (depth - 1) a b False) (s\<lparr>rng := g0\<rparr>) ?V NegInf column
            NegInf PosInf
          = Inr (full_max_loop (\<lambda>col. snd (full_minimax pick (drop_token ?B col AI_PIECE) (depth - 1) False))
                  ?V NegInf (pick ?V), s\<lparr>rng := g0\<rparr>\<lparr>rng := g\<rparr>)"
      by (rule max_loop_exact[OF op _ bs]) (use child ne in \<open>auto simp: less_score_def\<close>)
    then show ?thesis
      using True minimax_max_node[OF nonleaf rc, of NegInf PosInf] full_minimax_max_node[OF nonleaf, of pick]
      by simp
  next
    case False
    have "\<exists>g. min_loop (\<lambda>t a b. minimax t (depth - 1) a b True) (s\<lparr>rng := g0\<rparr>) ?V PosInf column
            NegInf PosInf
          = Inr (full_min_loop (\<lambda>col. snd (full_minimax pick (drop_token ?B col PLAYER_PIECE) (depth - 1) True))
                  ?V PosInf (pick ?V), s\<lparr>rng := g0\<rparr>\<lparr>rng := g\<rparr>)"
      by (rule min_loop_exact[OF op _ bs]) (use child ne in \<open>auto simp: less_score_def\<close>)
    then show ?thesis
      using False minimax_min_node[OF nonleaf rc, of NegInf PosInf] full_minimax_min_node[OF nonleaf, of pick]
      by simp
  qed
qed

text \<open>
  C1. For every grid, every depth, either player to move and every tie-break rule,
  \<^verbatim>\<open>minimax\<close> with the window \<open>(-\<infinity>, +\<infinity>)\<close> returns the column and the score
  that the unpruned search returns on the same grid and depth.
\<close>

theorem alpha_beta_equivalence:
  "\<exists>g. minimax s depth NegInf PosInf mx
        = Inr (full_minimax pick (board s) depth mx, s\<lparr>rng := g\<rparr>)"
  by (rule minimax_root)

theorem alpha_beta_equivalence_witness:
  "full_minimax hd (set_cell create_board 5 3 PLAYER_PIECE) 2 True = (Some 3, Fin 3)
   \<and> (\<exists>g. minimax \<lparr>board = set_cell create_board 5 3 PLAYER_PIECE, rng = id\<rparr> 2 NegInf PosInf True
          = Inr ((Some 3, Fin 3), \<lparr>board = set_cell create_board 5 3 PLAYER_PIECE, rng = g\<rparr>))"
proof -
  have "full_minimax hd (set_cell create_board 5 3 PLAYER_PIECE) 2 True = (Some 3, Fin 3)"
    by code_simp
  then show ?thesis
    using alpha_beta_equivalence[of "\<lparr>board = set_cell create_board 5 3 PLAYER_PIECE, rng = id\<rparr>"
        2 True hd]
    by simp
qed

text \<open>
  C9. Two runs of \<^verbatim>\<open>minimax\<close> with the window \<open>(-\<infinity>, +\<infinity>)\<close> on the same
  grid, depth and player, started in any two states of the random generator, both return,
  with the same column and score and the grid unchanged: the outcome of
  \<^verbatim>\<open>random.choice\<close> never reaches the result.
\<close>

theorem random_seed_inconsequential:
  "\<exists>res g1' g2'.
     minimax \<lparr>board = b, rng = g1\<rparr> depth NegInf PosInf mx = Inr (res, \<lparr>board = b, rng = g1'\<rparr>)
     \<and> minimax \<lparr>board = b, rng = g2\<rparr> depth NegInf PosInf mx = Inr (res, \<lparr>board = b, rng = g2'\<rparr>)"
proof -
  obtain h1 where "minimax \<lparr>board = b, rng = g1\<rparr> depth NegInf PosInf mx
      = Inr (full_minimax hd b depth mx, \<lparr>board = b, rng = g1\<rparr>\<lparr>rng := h1\<rparr>)"
    using minimax_root[of "\<lparr>board = b, rng = g1\<rparr>" depth mx hd] by auto
  moreover obtain h2 where "minimax \<lparr>board = b, rng = g2\<rparr> depth NegInf PosInf mx
      = Inr (full_minimax hd b depth mx, \<lparr>board = b, rng = g2\<rparr>\<lparr>rng := h2\<rparr>)"
    using minimax_root[of "\<lparr>board = b, rng = g2\<rparr>" depth mx hd] by auto
  ultimately show ?thesis by simp
qed

theorem random_seed_inconsequential_witness:
  "\<not> is_terminal_node create_board
   \<and> (\<exists>res g1' g2'.
     minimax \<lparr>board = create_board, rng = (\<lambda>n. 0)\<rparr> 3 NegInf PosInf True
       = Inr (res, \<lparr>board = create_board, rng = g1'\<rparr>)
     \<and> minimax \<lparr>board = create_board, rng = (\<lambda>n. 6)\<rparr> 3 NegInf PosInf True
       = Inr (res, \<lparr>board = create_board, rng = g2'\<rparr>))"
proof -
  have "\<not> is_terminal_node create_board" by code_simp
  then show ?thesis
    using random_seed_inconsequential[of create_board "\<lambda>n. 0" 3 True "\<lambda>n. 6"] by simp
qed

end
